theory Spec2Isabelle
  imports Complex_Main
begin

section \<open>Bun-cache: the cache client of \<^verbatim>\<open>src/index.ts\<close>\<close>

text \<open>
  The development follows \<^verbatim>\<open>src/index.ts\<close> (class \<^verbatim>\<open>CacheClient\<close>); line numbers refer
  to that file. An asynchronous method is a function from the state before the call to
  its outcome and the state after it: the outcome is \<open>Inl\<close> of an error where the promise
  rejects or the method throws, and \<open>Inr\<close> of the value otherwise. Calls run one after
  another; concurrent calls are not modelled.
\<close>

subsection \<open>Numbers\<close>

text \<open>
  A JavaScript number is an IEEE 754 double: \<^verbatim>\<open>NaN\<close>, one of the two infinities, or a finite
  value, given here by the rational it denotes. Only the rationals \<open>m * 2 ^ e\<close> with
  \<open>m\<close> an integer below \<open>2 ^ 53\<close> in magnitude and \<open>e\<close> from \<open>-1074\<close> to \<open>971\<close> are
  doubles; \<open>to_double\<close> below yields no other finite value. \<open>Fin 0\<close> is the positive zero,
  and \<open>NegZero\<close> is the negative zero.
\<close>

datatype number = NaN | PosInf | NegInf | NegZero | Fin rat

text \<open>The number of binary digits of a positive integer.\<close>

function bit_length :: "int \<Rightarrow> int" where
  "bit_length n = (if n \<le> 0 then 0 else 1 + bit_length (n div 2))"
  by pat_completeness auto
termination
  by (relation "measure nat") auto

declare bit_length.simps [simp del]

definition pow2 :: "int \<Rightarrow> rat" where
  "pow2 e = 2 powi e"

text \<open>
  The binary exponent of a positive rational \<open>x\<close>: the \<open>e\<close> with \<open>x\<close> from \<open>2 ^ e\<close> up to,
  and not including, the next power of two. The difference of the lengths of numerator
  and denominator is this exponent or one more.
\<close>

definition ilog2 :: "rat \<Rightarrow> int" where
  "ilog2 x =
     (let d = bit_length (fst (quotient_of x)) - bit_length (snd (quotient_of x))
      in if pow2 d \<le> x then d else d - 1)"

text \<open>The nearest integer, and the even one of the two when they are equally near.\<close>

definition round_half_even :: "rat \<Rightarrow> int" where
  "round_half_even x =
     (let f = \<lfloor>x\<rfloor>; r = x - of_int f
      in if r < 1 / 2 then f else if 1 / 2 < r then f + 1 else if even f then f else f + 1)"

text \<open>
  The double that a real result is rounded to (round to nearest, ties to even). The
  result has 53 significant binary digits, so its last place has the exponent \<open>e\<close> that is
  52 below the exponent of \<open>x\<close>, and not below \<open>-1074\<close>, the last place of the subnormal
  numbers. The largest double is \<open>(2 ^ 53 - 1) * 2 ^ 971\<close>; a result beyond it is an
  infinity, and a result that is rounded to zero keeps its sign.
\<close>

definition signed_zero :: "bool \<Rightarrow> number" where
  "signed_zero neg = (if neg then NegZero else Fin 0)"

definition signed_infinity :: "bool \<Rightarrow> number" where
  "signed_infinity neg = (if neg then NegInf else PosInf)"

definition to_double :: "rat \<Rightarrow> number" where
  "to_double x =
     (if x = 0 then Fin 0
      else
        (let e = max (ilog2 \<bar>x\<bar> - 52) (- 1074);
             m = round_half_even (x / pow2 e)
         in if 971 < e \<or> (e = 971 \<and> \<bar>m\<bar> = 2 ^ 53) then signed_infinity (x < 0)
            else if m = 0 then signed_zero (x < 0)
            else Fin (of_int m * pow2 e)))"

text \<open>
  The operators \<^verbatim>\<open>*\<close> and \<^verbatim>\<open>/\<close>. The product and the quotient of finite numbers other
  than zero are the exact results, rounded. A result that is zero or infinite without
  rounding is negative when exactly one of the two operands is negative.
\<close>

definition negative :: "number \<Rightarrow> bool" where
  "negative x = (case x of NegInf \<Rightarrow> True | NegZero \<Rightarrow> True | Fin a \<Rightarrow> a < 0 | _ \<Rightarrow> False)"

definition value_of :: "number \<Rightarrow> rat option" where
  "value_of x = (case x of Fin a \<Rightarrow> Some a | NegZero \<Rightarrow> Some 0 | _ \<Rightarrow> None)"

definition num_times :: "number \<Rightarrow> number \<Rightarrow> number" where
  "num_times x y =
     (if x = NaN \<or> y = NaN then NaN
      else
        (case (value_of x, value_of y) of
           (Some a, Some b) \<Rightarrow>
             if a * b = 0 then signed_zero (negative x \<noteq> negative y) else to_double (a * b)
         | (Some a, None) \<Rightarrow> if a = 0 then NaN else signed_infinity (negative x \<noteq> negative y)
         | (None, Some b) \<Rightarrow> if b = 0 then NaN else signed_infinity (negative x \<noteq> negative y)
         | (None, None) \<Rightarrow> signed_infinity (negative x \<noteq> negative y)))"

definition num_divide :: "number \<Rightarrow> number \<Rightarrow> number" where
  "num_divide x y =
     (if x = NaN \<or> y = NaN then NaN
      else
        (case (value_of x, value_of y) of
           (Some a, Some b) \<Rightarrow>
             if b = 0 then (if a = 0 then NaN else signed_infinity (negative x \<noteq> negative y))
             else if a = 0 then signed_zero (negative x \<noteq> negative y)
             else to_double (a / b)
         | (Some a, None) \<Rightarrow> signed_zero (negative x \<noteq> negative y)
         | (None, Some b) \<Rightarrow> signed_infinity (negative x \<noteq> negative y)
         | (None, None) \<Rightarrow> NaN))"

text \<open>The numbers that are falsy: \<^verbatim>\<open>NaN\<close> and the two zeros.\<close>

definition falsy_number :: "number \<Rightarrow> bool" where
  "falsy_number x = (x = NaN \<or> x = Fin 0 \<or> x = NegZero)"

subsection \<open>Constants\<close>

text \<open>Milliseconds conversion factors (lines 27--30) and the null marker (line 33).\<close>

definition SECONDS :: number where
  "SECONDS = Fin 1000"

definition MINUTES :: number where
  "MINUTES = num_times (Fin 60) SECONDS"

definition HOURS :: number where
  "HOURS = num_times (Fin 60) MINUTES"

definition DAYS :: number where
  "DAYS = num_times (Fin 24) HOURS"

definition NULL_SYMBOL :: string where
  "NULL_SYMBOL = ''%__NULL__%''"

subsection \<open>Errors and values\<close>

text \<open>
  Everything that can be raised: the \<^verbatim>\<open>SyntaxError\<close> of \<^verbatim>\<open>JSON.parse\<close>, the error that
  a method of the store client throws for an argument it does not accept, a command
  rejected by the store client, the constructor's error for a missing URL
  (lines 243--245), and whatever a caller's callback throws.
\<close>

datatype error = SyntaxError | ArgumentError | RedisError | ConfigError | Thrown string

text \<open>
  The values the client stores and returns: JSON values, with \<^verbatim>\<open>null\<close> as \<open>JNull\<close>, and
  with every number of JavaScript as a number, \<^verbatim>\<open>NaN\<close>, the infinities and the negative
  zero included.
  Characters are 8-bit. An object is the list of its members in the order in which they
  are enumerated, and its keys are distinct; that JavaScript enumerates the keys that are
  array indices before the others is not modelled.
\<close>

datatype json = JNull | JBool bool | JNum number | JStr string
  | JArr "json list" | JObj "(string \<times> json) list"

subsection \<open>The built-ins \<^verbatim>\<open>JSON.stringify\<close> and \<^verbatim>\<open>JSON.parse\<close>\<close>

text \<open>
  The two built-ins are not code of the repository. \<open>JSON_stringify\<close> writes the compact
  form JavaScript writes: no white space, short escapes for backspace, form feed,
  newline, carriage return and tab, \<^verbatim>\<open>\u00XX\<close> for the other control characters,
  \<^verbatim>\<open>null\<close> for a number that is not finite, and a finite number as \<^verbatim>\<open>Number.prototype.toString\<close>
  writes it (\<^verbatim>\<open>0\<close> for either zero). \<open>JSON_parse\<close> is a recursive-descent parser for the grammar of JSON, with
  white space between tokens; it returns \<open>Inl SyntaxError\<close> where \<^verbatim>\<open>JSON.parse\<close> throws.
  With 8-bit characters it cannot represent what an escape \<^verbatim>\<open>\uXXXX\<close> from \<^verbatim>\<open>\u0100\<close> on
  denotes, and refuses such an escape too; \<open>has_wide_escape\<close> below finds the strings that
  this concerns. The recursion of the parser is bounded by a counter that starts above
  the length of the input, so it is total.
\<close>

fun join_with :: "string \<Rightarrow> string list \<Rightarrow> string" where
  "join_with sep [] = []"
| "join_with sep [x] = x"
| "join_with sep (x # y # ys) = x @ sep @ join_with sep (y # ys)"

text \<open>The decimal digits of an integer that is not negative.\<close>

definition digit_char :: "int \<Rightarrow> char" where
  "digit_char d = char_of (48 + nat d)"

function show_digits :: "int \<Rightarrow> string" where
  "show_digits n = (if n < 10 then [digit_char n] else show_digits (n div 10) @ [digit_char (n mod 10)])"
  by pat_completeness auto
termination
  by (relation "measure nat") auto

declare show_digits.simps [simp del]

definition pow10 :: "int \<Rightarrow> rat" where
  "pow10 e = 10 powi e"

text \<open>
  \<^verbatim>\<open>Number.prototype.toString\<close> writes a finite number \<open>q\<close> other than zero with the digits
  of the integer \<open>s\<close> and the exponent \<open>e\<close> for which \<open>s * 10 ^ e\<close> is a decimal with the
  fewest digits that reads back as \<open>q\<close>, and the nearest to \<open>q\<close> among these. 17 digits
  always suffice for a double. \<open>decimal_exponent x\<close> is the number of digits that a
  positive \<open>x\<close> has in front of the decimal point (zero or negative below 1);
  \<open>nearest_decimal q k\<close> looks among the decimals with \<open>k\<close> digits, of which only the two
  next to \<open>q\<close> can read back.
\<close>

definition decimal_exponent :: "rat \<Rightarrow> int" where
  "decimal_exponent x =
     (if 1 \<le> x then int (length (show_digits \<lfloor>x\<rfloor>))
      else 1 - int (length (show_digits (\<lceil>1 / x\<rceil> - 1))))"

definition signum :: "rat \<Rightarrow> int" where
  "signum q = (if q < 0 then - 1 else 1)"

definition reads_back :: "rat \<Rightarrow> int \<Rightarrow> int \<Rightarrow> bool" where
  "reads_back q s e = (to_double (of_int (signum q * s) * pow10 e) = Fin q)"

definition nearest_decimal :: "rat \<Rightarrow> int \<Rightarrow> (int \<times> int) option" where
  "nearest_decimal q k =
     (let e = decimal_exponent \<bar>q\<bar> - k;
          t = \<bar>q\<bar> / pow10 e;
          lo = \<lfloor>t\<rfloor>;
          hi = lo + 1
      in if reads_back q lo e \<and> reads_back q hi e then Some (round_half_even t, e)
         else if reads_back q lo e then Some (lo, e)
         else if reads_back q hi e then Some (hi, e)
         else None)"

function shortest_from :: "rat \<Rightarrow> int \<Rightarrow> int \<times> int" where
  "shortest_from q k =
     (if 17 \<le> k then (round_half_even (\<bar>q\<bar> / pow10 (decimal_exponent \<bar>q\<bar> - 17)),
                       decimal_exponent \<bar>q\<bar> - 17)
      else (case nearest_decimal q k of
              Some d \<Rightarrow> d
            | None \<Rightarrow> shortest_from q (k + 1)))"
  by pat_completeness auto
termination
  by (relation "measure (\<lambda>(q, k). nat (17 - k))") auto

declare shortest_from.simps [simp del]

text \<open>The digits are written without zeros at the end: these go into the exponent.\<close>

function strip_zeros :: "int \<Rightarrow> int \<Rightarrow> int \<times> int" where
  "strip_zeros s e = (if s \<noteq> 0 \<and> s mod 10 = 0 then strip_zeros (s div 10) (e + 1) else (s, e))"
  by pat_completeness auto
termination
  by (relation "measure (\<lambda>(s, e). nat \<bar>s\<bar>)") auto

declare strip_zeros.simps [simp del]

definition shortest_decimal :: "rat \<Rightarrow> int \<times> int" where
  "shortest_decimal q = (case shortest_from q 1 of (s, e) \<Rightarrow> strip_zeros s e)"

text \<open>
  The layout of the digits: with \<open>k\<close> digits and \<open>n\<close> of them in front of the decimal
  point, the integer with its zeros up to 21 digits, the decimal fraction, the fraction
  with up to six zeros after the point, and the exponent form otherwise.
\<close>

definition show_decimal :: "int \<Rightarrow> int \<Rightarrow> string" where
  "show_decimal s e =
     (let ds = show_digits s;
          k = int (length ds);
          n = k + e
      in if k \<le> n \<and> n \<le> 21 then ds @ replicate (nat (n - k)) (CHR ''0'')
         else if 0 < n \<and> n \<le> 21 then take (nat n) ds @ ''.'' @ drop (nat n) ds
         else if - 6 < n \<and> n \<le> 0 then ''0.'' @ replicate (nat (- n)) (CHR ''0'') @ ds
         else [hd ds] @ (if k = 1 then [] else ''.'' @ tl ds) @ ''e''
              @ (if 0 \<le> n - 1 then ''+'' else ''-'') @ show_digits \<bar>n - 1\<bar>)"

definition show_number :: "rat \<Rightarrow> string" where
  "show_number q =
     (if q = 0 then ''0''
      else (if q < 0 then ''-'' else []) @ (case shortest_decimal q of (s, e) \<Rightarrow> show_decimal s e))"

definition hex_char :: "nat \<Rightarrow> char" where
  "hex_char d = (if d < 10 then char_of (48 + d) else char_of (87 + d))"

definition escape_char :: "char \<Rightarrow> string" where
  "escape_char c =
     (if c = CHR 0x22 then [CHR 0x5C, CHR 0x22]
      else if c = CHR 0x5C then [CHR 0x5C, CHR 0x5C]
      else if c = CHR 0x08 then [CHR 0x5C, CHR ''b'']
      else if c = CHR 0x0C then [CHR 0x5C, CHR ''f'']
      else if c = CHR 0x0A then [CHR 0x5C, CHR ''n'']
      else if c = CHR 0x0D then [CHR 0x5C, CHR ''r'']
      else if c = CHR 0x09 then [CHR 0x5C, CHR ''t'']
      else if (of_char c :: nat) < 32
        then [CHR 0x5C, CHR ''u'', CHR ''0'', CHR ''0'',
              hex_char (of_char c div 16), hex_char (of_char c mod 16)]
      else [c])"

definition quote :: "string \<Rightarrow> string" where
  "quote s = CHR 0x22 # concat (map escape_char s) @ [CHR 0x22]"

fun JSON_stringify :: "json \<Rightarrow> string" where
  "JSON_stringify JNull = ''null''"
| "JSON_stringify (JBool b) = (if b then ''true'' else ''false'')"
| "JSON_stringify (JNum x) =
     (case x of Fin q \<Rightarrow> show_number q | NegZero \<Rightarrow> ''0'' | _ \<Rightarrow> ''null'')"
| "JSON_stringify (JStr s) = quote s"
| "JSON_stringify (JArr vs) = ''['' @ join_with '','' (map JSON_stringify vs) @ '']''"
| "JSON_stringify (JObj ms) =
     ''{'' @ join_with '','' (map (\<lambda>m. quote (fst m) @ '':'' @ JSON_stringify (snd m)) ms) @ ''}''"

definition is_digit :: "char \<Rightarrow> bool" where
  "is_digit c = (48 \<le> (of_char c :: nat) \<and> (of_char c :: nat) \<le> 57)"

definition digit_val :: "char \<Rightarrow> int" where
  "digit_val c = int (of_char c) - 48"

definition digits_val :: "string \<Rightarrow> int" where
  "digits_val ds = foldl (\<lambda>a c. 10 * a + digit_val c) 0 ds"

definition is_ws :: "char \<Rightarrow> bool" where
  "is_ws c = (c = CHR '' '' \<or> c = CHR 0x09 \<or> c = CHR 0x0A \<or> c = CHR 0x0D)"

definition skip_ws :: "string \<Rightarrow> string" where
  "skip_ws s = dropWhile is_ws s"

definition hex_val :: "char \<Rightarrow> nat option" where
  "hex_val c =
     (let n = (of_char c :: nat) in
      if 48 \<le> n \<and> n \<le> 57 then Some (n - 48)
      else if 97 \<le> n \<and> n \<le> 102 then Some (n - 87)
      else if 65 \<le> n \<and> n \<le> 70 then Some (n - 55)
      else None)"

definition hex4 :: "char \<Rightarrow> char \<Rightarrow> char \<Rightarrow> char \<Rightarrow> nat option" where
  "hex4 a b c d =
     (case (hex_val a, hex_val b, hex_val c, hex_val d) of
        (Some x, Some y, Some z, Some w) \<Rightarrow> Some (((x * 16 + y) * 16 + z) * 16 + w)
      | _ \<Rightarrow> None)"

definition unescape :: "char \<Rightarrow> char option" where
  "unescape e =
     (if e = CHR 0x22 then Some (CHR 0x22)
      else if e = CHR 0x5C then Some (CHR 0x5C)
      else if e = CHR ''/'' then Some (CHR ''/'')
      else if e = CHR ''b'' then Some (CHR 0x08)
      else if e = CHR ''f'' then Some (CHR 0x0C)
      else if e = CHR ''n'' then Some (CHR 0x0A)
      else if e = CHR ''r'' then Some (CHR 0x0D)
      else if e = CHR ''t'' then Some (CHR 0x09)
      else None)"

definition cons_chars :: "char \<Rightarrow> (string \<times> string) option \<Rightarrow> (string \<times> string) option" where
  "cons_chars c res = (case res of None \<Rightarrow> None | Some (str, rest) \<Rightarrow> Some (c # str, rest))"

fun parse_chars :: "string \<Rightarrow> (string \<times> string) option" where
  "parse_chars [] = None"
| "parse_chars (c # r) =
     (if c = CHR 0x22 then Some ([], r)
      else if c = CHR 0x5C then
        (case r of
           [] \<Rightarrow> None
         | e # r' \<Rightarrow>
             if e = CHR ''u'' then
               (case r' of
                  a # b # c' # d # r'' \<Rightarrow>
                    (case hex4 a b c' d of
                       None \<Rightarrow> None
                     | Some n \<Rightarrow> if n < 256 then cons_chars (char_of n) (parse_chars r'') else None)
                | _ \<Rightarrow> None)
             else
               (case unescape e of
                  None \<Rightarrow> None
                | Some ch \<Rightarrow> cons_chars ch (parse_chars r')))
      else if (of_char c :: nat) < 32 then None
      else cons_chars c (parse_chars r))"


text \<open>
  A number literal: an optional minus sign, the digits of the integer part (a single
  zero, or digits that do not start with a zero), an optional fraction (a point and at
  least one digit) and an optional exponent (\<^verbatim>\<open>e\<close> or \<^verbatim>\<open>E\<close>, an optional sign and at least
  one digit). Its value is the double nearest to the decimal that is written, and the
  zero of its sign when all the digits are zeros.
\<close>

definition decimal_value :: "bool \<Rightarrow> string \<Rightarrow> int \<Rightarrow> number" where
  "decimal_value neg ds e =
     (if digits_val ds = 0 then signed_zero neg
      else to_double ((if neg then - of_int (digits_val ds) else of_int (digits_val ds)) * pow10 e))"

definition parse_fraction :: "string \<Rightarrow> (string \<times> string) option" where
  "parse_fraction r =
     (if r \<noteq> [] \<and> hd r = CHR ''.'' then
        (if takeWhile is_digit (tl r) = [] then None
         else Some (takeWhile is_digit (tl r), dropWhile is_digit (tl r)))
      else Some ([], r))"

definition parse_exponent :: "string \<Rightarrow> (int \<times> string) option" where
  "parse_exponent r =
     (if r \<noteq> [] \<and> (hd r = CHR ''e'' \<or> hd r = CHR ''E'') then
        (let r1 = tl r;
             neg = (r1 \<noteq> [] \<and> hd r1 = CHR ''-'');
             r2 = (if r1 \<noteq> [] \<and> (hd r1 = CHR ''-'' \<or> hd r1 = CHR ''+'') then tl r1 else r1);
             es = takeWhile is_digit r2
         in if es = [] then None
            else Some (if neg then - digits_val es else digits_val es, dropWhile is_digit r2))
      else Some (0, r))"

definition parse_unsigned :: "bool \<Rightarrow> string \<Rightarrow> (json \<times> string) option" where
  "parse_unsigned neg s =
     (let ds = takeWhile is_digit s
      in if ds = [] then None
         else if hd ds = CHR ''0'' \<and> length ds > 1 then None
         else
           (case parse_fraction (dropWhile is_digit s) of
              None \<Rightarrow> None
            | Some (fs, r1) \<Rightarrow>
                (case parse_exponent r1 of
                   None \<Rightarrow> None
                 | Some (ex, r2) \<Rightarrow>
                     Some (JNum (decimal_value neg (ds @ fs) (ex - int (length fs))), r2))))"

definition parse_number :: "string \<Rightarrow> (json \<times> string) option" where
  "parse_number s =
     (if s \<noteq> [] \<and> hd s = CHR ''-'' then parse_unsigned True (tl s) else parse_unsigned False s)"

definition parse_literal :: "string \<Rightarrow> json \<Rightarrow> string \<Rightarrow> (json \<times> string) option" where
  "parse_literal lit v s =
     (if take (length lit) s = lit then Some (v, drop (length lit) s) else None)"

text \<open>
  The members of an object as \<^verbatim>\<open>JSON.parse\<close> defines them one after the other: a key that
  the object has already keeps its place and takes the new value.
\<close>

definition put_member :: "(string \<times> json) list \<Rightarrow> string \<times> json \<Rightarrow> (string \<times> json) list" where
  "put_member ms m =
     (if fst m \<in> set (map fst ms) then map (\<lambda>old. if fst old = fst m then m else old) ms
      else ms @ [m])"

definition object_of :: "(string \<times> json) list \<Rightarrow> json" where
  "object_of ms = JObj (foldl put_member [] ms)"

fun parse_value :: "nat \<Rightarrow> string \<Rightarrow> (json \<times> string) option"
and parse_elems :: "nat \<Rightarrow> string \<Rightarrow> (json list \<times> string) option"
and parse_members :: "nat \<Rightarrow> string \<Rightarrow> ((string \<times> json) list \<times> string) option"
where
  "parse_value 0 s = None"
| "parse_value (Suc n) s =
     (case skip_ws s of
        [] \<Rightarrow> None
      | c # r \<Rightarrow>
          if c = CHR ''n'' then parse_literal ''null'' JNull (c # r)
          else if c = CHR ''t'' then parse_literal ''true'' (JBool True) (c # r)
          else if c = CHR ''f'' then parse_literal ''false'' (JBool False) (c # r)
          else if c = CHR 0x22 then
            (case parse_chars r of
               None \<Rightarrow> None
             | Some (str, r') \<Rightarrow> Some (JStr str, r'))
          else if c = CHR ''['' then
            (if skip_ws r \<noteq> [] \<and> hd (skip_ws r) = CHR '']'' then Some (JArr [], tl (skip_ws r))
             else (case parse_elems n r of
                     None \<Rightarrow> None
                   | Some (vs, r') \<Rightarrow> Some (JArr vs, r')))
          else if c = CHR ''{'' then
            (if skip_ws r \<noteq> [] \<and> hd (skip_ws r) = CHR ''}'' then Some (JObj [], tl (skip_ws r))
             else (case parse_members n r of
                     None \<Rightarrow> None
                   | Some (ms, r') \<Rightarrow> Some (object_of ms, r')))
          else parse_number (c # r))"
| "parse_elems 0 s = None"
| "parse_elems (Suc n) s =
     (case parse_value n s of
        None \<Rightarrow> None
      | Some (v, r) \<Rightarrow>
          (case skip_ws r of
             [] \<Rightarrow> None
           | c # r' \<Rightarrow>
               if c = CHR '','' then
                 (case parse_elems n r' of
                    None \<Rightarrow> None
                  | Some (vs, r'') \<Rightarrow> Some (v # vs, r''))
               else if c = CHR '']'' then Some ([v], r')
               else None))"
| "parse_members 0 s = None"
| "parse_members (Suc n) s =
     (case skip_ws s of
        [] \<Rightarrow> None
      | c # r \<Rightarrow>
          if c = CHR 0x22 then
            (case parse_chars r of
               None \<Rightarrow> None
             | Some (k, r1) \<Rightarrow>
                 (case skip_ws r1 of
                    [] \<Rightarrow> None
                  | c1 # r2 \<Rightarrow>
                      if c1 = CHR '':'' then
                        (case parse_value n r2 of
                           None \<Rightarrow> None
                         | Some (v, r3) \<Rightarrow>
                             (case skip_ws r3 of
                                [] \<Rightarrow> None
                              | c3 # r4 \<Rightarrow>
                                  if c3 = CHR '','' then
                                    (case parse_members n r4 of
                                       None \<Rightarrow> None
                                     | Some (ms, r5) \<Rightarrow> Some ((k, v) # ms, r5))
                                  else if c3 = CHR ''}'' then Some ([(k, v)], r4)
                                  else None))
                      else None))
          else None)"

definition JSON_parse :: "string \<Rightarrow> error + json" where
  "JSON_parse s =
     (case parse_value (Suc (length s)) s of
        None \<Rightarrow> Inl SyntaxError
      | Some (v, rest) \<Rightarrow> if skip_ws rest = [] then Inr v else Inl SyntaxError)"

subsection \<open>Options\<close>

text \<open>
  \<^verbatim>\<open>CacheOption\<close> (lines 171--199). Every field is optional in the source, so every field
  is an \<^typ>\<open>'a option\<close> here, and the options object itself is optional at the call.
\<close>

datatype unit_name = MILLISECONDS | SECONDS_U | MINUTES_U | HOURS_U | DAYS_U

datatype duration = Raw number | Dur number unit_name

record CacheOption =
  duration :: "duration option"
  renewCacheDurationOnAccess :: "bool option"
  saveNullResponse :: "bool option"
  bypassCache :: "bool option"

text \<open>The optional chaining \<^verbatim>\<open>options?.field\<close>: \<^verbatim>\<open>undefined\<close> when there are no options.\<close>

definition opt_field :: "(CacheOption \<Rightarrow> 'a option) \<Rightarrow> CacheOption option \<Rightarrow> 'a option" where
  "opt_field f options = (case options of None \<Rightarrow> None | Some opts \<Rightarrow> f opts)"

subsection \<open>Time to live\<close>

text \<open>
  \<^verbatim>\<open>cacheTimeInMS\<close> (lines 362--382). The first parameter is the field
  \<^verbatim>\<open>getValueOrRetrieveCacheDurationInMs\<close> of the client. The guard \<^verbatim>\<open>!duration\<close> holds for
  \<^verbatim>\<open>undefined\<close> and for a falsy number; an object is never falsy.
\<close>

fun cacheTimeInMS :: "number \<Rightarrow> duration option \<Rightarrow> number" where
  "cacheTimeInMS dflt None = dflt"
| "cacheTimeInMS dflt (Some (Raw d)) = (if falsy_number d then dflt else d)"
| "cacheTimeInMS dflt (Some (Dur v MILLISECONDS)) = v"
| "cacheTimeInMS dflt (Some (Dur v SECONDS_U)) = num_times SECONDS v"
| "cacheTimeInMS dflt (Some (Dur v MINUTES_U)) = num_times MINUTES v"
| "cacheTimeInMS dflt (Some (Dur v HOURS_U)) = num_times HOURS v"
| "cacheTimeInMS dflt (Some (Dur v DAYS_U)) = num_times HOURS v"

text \<open>Line 391: \<^verbatim>\<open>this.cacheTimeInMS(options?.duration) / SECONDS\<close>.\<close>

definition expirationTime :: "number \<Rightarrow> CacheOption option \<Rightarrow> number" where
  "expirationTime dflt options = num_divide (cacheTimeInMS dflt (opt_field duration options)) SECONDS"

text \<open>
  The constructor's default (lines 250--255): the configured \<^verbatim>\<open>cacheDurationInMs\<close> when it is
  truthy, five minutes otherwise.
\<close>

definition defaultCacheDurationInMs :: "number option \<Rightarrow> number" where
  "defaultCacheDurationInMs configured =
     (case configured of
        None \<Rightarrow> num_times (Fin 5) MINUTES
      | Some d \<Rightarrow> if falsy_number d then num_times (Fin 5) MINUTES else d)"

subsection \<open>Cache keys\<close>

text \<open>
  \<^verbatim>\<open>computeCacheKey\<close> (lines 436--446). The input is a string or an array; the elements of
  the array are put into the key by the template literal \<^verbatim>\<open>`_${i}`\<close>, so an element is
  represented by the string the template renders for it.
\<close>

datatype key_input = KeyString string | KeyArray "string list"

fun computeCacheKey_loop :: "string \<Rightarrow> string list \<Rightarrow> string" where
  "computeCacheKey_loop key [] = key"
| "computeCacheKey_loop key (i # rest) = computeCacheKey_loop (key @ ''_'' @ i) rest"

fun computeCacheKey :: "string \<Rightarrow> key_input \<Rightarrow> string" where
  "computeCacheKey prefix (KeyString input) = prefix @ input"
| "computeCacheKey prefix (KeyArray input) = computeCacheKey_loop prefix input"

text \<open>
  The derivation rule in the words of the specification: the prefix, followed by the
  elements joined with the separator.
\<close>

fun spec_cache_key :: "string \<Rightarrow> key_input \<Rightarrow> string" where
  "spec_cache_key prefix (KeyString input) = prefix @ input"
| "spec_cache_key prefix (KeyArray input) = prefix @ join_with ''_'' input"

subsection \<open>The store client\<close>

text \<open>
  The store is reached through Bun's \<^verbatim>\<open>RedisClient\<close>, which is not code of the repository.
  Its model keeps what the cache client can observe: the key space of the server (for
  each key the stored string and its time to live in seconds, if any), whether the
  connection is open, and the commands issued so far, in order. A command fails (its
  promise rejects) exactly when \<open>rejects\<close> says so; this stands for network failures and
  for arguments the server refuses. The passing of time is not modelled: a time to live
  is recorded, and nothing expires.
\<close>

datatype set_arg = ArgS string | ArgN number

datatype command =
    Get string
  | Set string string "set_arg list"
  | Expire string number
  | Send string "string list"
  | Connect

record RedisClient =
  slots :: "string \<rightharpoonup> string \<times> number option"
  rejects :: "command \<Rightarrow> bool"
  connected :: bool
  issued :: "command list"

definition new_RedisClient ::
  "(string \<rightharpoonup> string \<times> number option) \<Rightarrow> (command \<Rightarrow> bool) \<Rightarrow> RedisClient" where
  "new_RedisClient srv rej = \<lparr>slots = srv, rejects = rej, connected = False, issued = []\<rparr>"

definition issue :: "RedisClient \<Rightarrow> command \<Rightarrow> RedisClient" where
  "issue c cmd = c\<lparr>issued := issued c @ [cmd]\<rparr>"

definition redis_connect :: "RedisClient \<Rightarrow> (error + unit) \<times> RedisClient" where
  "redis_connect c =
     (if rejects c Connect then (Inl RedisError, issue c Connect)
      else (Inr (), (issue c Connect)\<lparr>connected := True\<rparr>))"

definition redis_close :: "RedisClient \<Rightarrow> RedisClient" where
  "redis_close c = c\<lparr>connected := False\<rparr>"

definition redis_get :: "RedisClient \<Rightarrow> string \<Rightarrow> (error + string option) \<times> RedisClient" where
  "redis_get c key =
     (if rejects c (Get key) then (Inl RedisError, issue c (Get key))
      else (Inr (map_option fst (slots c key)), issue c (Get key)))"

definition write_slot :: "RedisClient \<Rightarrow> string \<Rightarrow> string \<Rightarrow> number option \<Rightarrow> RedisClient" where
  "write_slot c key v ttl = c\<lparr>slots := (slots c)(key \<mapsto> (v, ttl))\<rparr>"

text \<open>
  \<^verbatim>\<open>SET key value\<close> and the argument forms \<^verbatim>\<open>EX seconds\<close>, \<^verbatim>\<open>PX milliseconds\<close>,
  \<^verbatim>\<open>KEEPTTL\<close>, \<^verbatim>\<open>NX\<close> and \<^verbatim>\<open>XX\<close>. A plain \<^verbatim>\<open>SET\<close> discards the time to live of the key.
  Other argument lists are not modelled and are answered with an error. The reply is
  \<^verbatim>\<open>"OK"\<close>, or \<^verbatim>\<open>null\<close> when \<^verbatim>\<open>NX\<close> or \<^verbatim>\<open>XX\<close> does not apply.
\<close>

definition redis_set ::
  "RedisClient \<Rightarrow> string \<Rightarrow> string \<Rightarrow> set_arg list \<Rightarrow> (error + string option) \<times> RedisClient" where
  "redis_set c key v args =
     (let c' = issue c (Set key v args) in
      if rejects c (Set key v args) then (Inl RedisError, c')
      else
        (case args of
           [] \<Rightarrow> (Inr (Some ''OK''), write_slot c' key v None)
         | [ArgS opt] \<Rightarrow>
             if opt = ''KEEPTTL'' then
               (Inr (Some ''OK''),
                write_slot c' key v (case slots c key of None \<Rightarrow> None | Some old \<Rightarrow> snd old))
             else if opt = ''NX'' then
               (if slots c key = None then (Inr (Some ''OK''), write_slot c' key v None)
                else (Inr None, c'))
             else if opt = ''XX'' then
               (if slots c key \<noteq> None then (Inr (Some ''OK''), write_slot c' key v None)
                else (Inr None, c'))
             else (Inl RedisError, c')
         | [ArgS opt, ArgN n] \<Rightarrow>
             if opt = ''EX'' then (Inr (Some ''OK''), write_slot c' key v (Some n))
             else if opt = ''PX'' then
               (Inr (Some ''OK''), write_slot c' key v (Some (num_divide n (Fin 1000))))
             else (Inl RedisError, c')
         | _ \<Rightarrow> (Inl RedisError, c')))"

text \<open>
  \<^verbatim>\<open>expire(key, seconds)\<close>. Bun's client checks its arguments before it sends anything:
  \<^verbatim>\<open>seconds\<close> has to be an integer from 0 to 2147483647, and for any other number the
  method throws at the call, so that there is no promise. This is the outer \<open>Inl\<close> of
  the result. Otherwise the command is issued and the result is the outcome of the
  promise, with the client after it.
\<close>

definition expire_accepts :: "number \<Rightarrow> bool" where
  "expire_accepts seconds =
     (case seconds of
        Fin q \<Rightarrow> of_int \<lfloor>q\<rfloor> = q \<and> 0 \<le> q \<and> q \<le> 2147483647
      | NegZero \<Rightarrow> True
      | _ \<Rightarrow> False)"

definition redis_expire ::
  "RedisClient \<Rightarrow> string \<Rightarrow> number \<Rightarrow> error + ((error + bool) \<times> RedisClient)" where
  "redis_expire c key seconds =
     (if \<not> expire_accepts seconds then Inl ArgumentError
      else
        Inr (let c' = issue c (Expire key seconds) in
             if rejects c (Expire key seconds) then (Inl RedisError, c')
             else
               (case slots c key of
                  None \<Rightarrow> (Inr False, c')
                | Some old \<Rightarrow> (Inr True, write_slot c' key (fst old) (Some seconds)))))"

definition redis_send :: "RedisClient \<Rightarrow> string \<Rightarrow> string list \<Rightarrow> (error + unit) \<times> RedisClient" where
  "redis_send c cmd args =
     (if rejects c (Send cmd args) then (Inl RedisError, issue c (Send cmd args))
      else (Inr (), issue c (Send cmd args)))"

subsection \<open>The cache client\<close>

text \<open>The fields of \<^verbatim>\<open>CacheClient\<close> (lines 230--235).\<close>

record CacheClient =
  client :: RedisClient
  url :: string
  getValueOrRetrieveCacheDurationInMs :: number
  getValueOrRetrieveKeyPrefix :: string

text \<open>
  \<^verbatim>\<open>BaseCacheClientOptions\<close> (lines 124--140), with the two fields of
  \<^verbatim>\<open>getValueOrRetrieveDefaultOptions\<close> side by side with the URL.
\<close>

record ClientOptions =
  opt_url :: "string option"
  cacheDurationInMs :: "number option"
  keyPrefix :: "string option"

text \<open>
  The constructor (lines 237--270). \<open>env_url\<close> is the value of the environment variable
  \<^verbatim>\<open>REDIS_URL\<close>; \<open>srv\<close> and \<open>rej\<close> are the key space and the behaviour of the server that
  the URL designates. Each test of the source is a truthiness test, which an empty string
  and a falsy number fail.
\<close>

definition truthy_string :: "string option \<Rightarrow> bool" where
  "truthy_string v = (case v of None \<Rightarrow> False | Some s \<Rightarrow> s \<noteq> [])"

definition new_CacheClient ::
  "string option \<Rightarrow> (string \<rightharpoonup> string \<times> number option) \<Rightarrow> (command \<Rightarrow> bool)
     \<Rightarrow> ClientOptions option \<Rightarrow> error + CacheClient" where
  "new_CacheClient env_url srv rej options =
     (let given = (case options of None \<Rightarrow> None | Some opts \<Rightarrow> opt_url opts);
          prefix = (case options of None \<Rightarrow> None | Some opts \<Rightarrow> keyPrefix opts)
      in if \<not> truthy_string given \<and> \<not> truthy_string env_url then Inl ConfigError
         else Inr \<lparr>client = new_RedisClient srv rej,
                   url = (if truthy_string given then the given else the env_url),
                   getValueOrRetrieveCacheDurationInMs =
                     defaultCacheDurationInMs
                       (case options of None \<Rightarrow> None | Some opts \<Rightarrow> cacheDurationInMs opts),
                   getValueOrRetrieveKeyPrefix =
                     (if truthy_string prefix then the prefix else [])\<rparr>)"

text \<open>
  \<^verbatim>\<open>CacheClient.create\<close> in its awaiting form (lines 298--301): construct, connect, and
  return the instance once the connection is there.
\<close>

definition create ::
  "string option \<Rightarrow> (string \<rightharpoonup> string \<times> number option) \<Rightarrow> (command \<Rightarrow> bool)
     \<Rightarrow> ClientOptions option \<Rightarrow> error + CacheClient" where
  "create env_url srv rej options =
     (case new_CacheClient env_url srv rej options of
        Inl e \<Rightarrow> Inl e
      | Inr inst \<Rightarrow>
          (case redis_connect (client inst) of
             (Inl e, rc) \<Rightarrow> Inl e
           | (Inr u, rc) \<Rightarrow> Inr (inst\<lparr>client := rc\<rparr>)))"

text \<open>\<^verbatim>\<open>close\<close> (lines 515--517).\<close>

definition close :: "CacheClient \<Rightarrow> CacheClient" where
  "close c = c\<lparr>client := redis_close (client c)\<rparr>"


text \<open>
  \<^verbatim>\<open>getValue\<close> (lines 342--360). \<^verbatim>\<open>raw\<close> is optional; a string that is returned as it is
  stored is the value \<open>JStr\<close> of that string, and \<^verbatim>\<open>null\<close> is \<open>JNull\<close>.
\<close>

definition getValue ::
  "CacheClient \<Rightarrow> string \<Rightarrow> bool option \<Rightarrow> (error + json) \<times> CacheClient" where
  "getValue c key raw =
     (if connected (client c) then
        (case redis_get (client c) key of
           (Inl e, rc) \<Rightarrow> (Inl e, c\<lparr>client := rc\<rparr>)
         | (Inr v, rc) \<Rightarrow>
             (if raw = Some True \<or> v = None then
                (Inr (case v of None \<Rightarrow> JNull | Some s \<Rightarrow> JStr s), c\<lparr>client := rc\<rparr>)
              else
                (case JSON_parse (the v) of
                   Inr parsed \<Rightarrow> (Inr parsed, c\<lparr>client := rc\<rparr>)
                 | Inl e \<Rightarrow> (Inr (JStr (the v)), c\<lparr>client := rc\<rparr>))))
      else (Inr JNull, c))"

text \<open>
  \<^verbatim>\<open>getValueOrRetrieve\<close> (lines 384--434). The retrieval function is a callback of the
  caller: it runs on the caller's state \<open>'w\<close>, and returns a value or raises. The part
  after the cache lookup (lines 416--433) is \<open>retrieve_and_store\<close>; every path of the
  source that does not return from the lookup continues there.
\<close>

definition retrieve_and_store ::
  "CacheClient \<Rightarrow> string \<Rightarrow> number \<Rightarrow> ('w \<Rightarrow> (error + json) \<times> 'w) \<Rightarrow> CacheOption option \<Rightarrow> 'w
     \<Rightarrow> (error + json) \<times> CacheClient \<times> 'w" where
  "retrieve_and_store c computedKey expiration retrieve options w =
     (case retrieve w of
        (Inl e, w') \<Rightarrow> (Inl e, c, w')
      | (Inr fetchedValue, w') \<Rightarrow>
          if fetchedValue = JNull then
            (if opt_field saveNullResponse options \<noteq> Some False then
               (case redis_set (client c) computedKey NULL_SYMBOL [] of
                  (Inl e, rc) \<Rightarrow> (Inl e, c\<lparr>client := rc\<rparr>, w')
                | (Inr ok, rc) \<Rightarrow> (Inr JNull, c\<lparr>client := rc\<rparr>, w'))
             else (Inr JNull, c, w'))
          else
            (case redis_set (client c) computedKey (JSON_stringify fetchedValue)
                    [ArgS ''EX'', ArgN expiration] of
               (Inl e, rc) \<Rightarrow> (Inl e, c\<lparr>client := rc\<rparr>, w')
             | (Inr ok, rc) \<Rightarrow> (Inr fetchedValue, c\<lparr>client := rc\<rparr>, w')))"

text \<open>
  The hit test of lines 396--399: the value read is truthy (present and not the empty
  string), and it is not the null marker unless null responses are saved.
\<close>

definition cache_hit :: "string option \<Rightarrow> CacheOption option \<Rightarrow> bool" where
  "cache_hit v options =
     (truthy_string v \<and> (v \<noteq> Some NULL_SYMBOL \<or> opt_field saveNullResponse options \<noteq> Some False))"

text \<open>
  Lines 401--405: the renewal. The handler of \<^verbatim>\<open>.catch\<close> is attached to the promise that
  \<^verbatim>\<open>expire\<close> returns: a rejected promise is caught and logged, so only the state of the
  store client is kept, but an error that \<^verbatim>\<open>expire\<close> throws at the call is not caught and
  leaves \<^verbatim>\<open>getValueOrRetrieve\<close>.
\<close>

definition renew ::
  "CacheClient \<Rightarrow> string \<Rightarrow> number \<Rightarrow> CacheOption option \<Rightarrow> error + CacheClient" where
  "renew c computedKey expiration options =
     (if opt_field renewCacheDurationOnAccess options = Some True then
        (case redis_expire (client c) computedKey expiration of
           Inl e \<Rightarrow> Inl e
         | Inr (res, rc) \<Rightarrow> Inr (c\<lparr>client := rc\<rparr>))
      else Inr c)"

definition getValueOrRetrieve ::
  "CacheClient \<Rightarrow> key_input \<Rightarrow> ('w \<Rightarrow> (error + json) \<times> 'w) \<Rightarrow> CacheOption option \<Rightarrow> 'w
     \<Rightarrow> (error + json) \<times> CacheClient \<times> 'w" where
  "getValueOrRetrieve c key retrieve options w =
     (let computedKey = computeCacheKey (getValueOrRetrieveKeyPrefix c) key;
          expiration = expirationTime (getValueOrRetrieveCacheDurationInMs c) options
      in if opt_field bypassCache options \<noteq> Some True then
           (case redis_get (client c) computedKey of
              (Inl e, rc) \<Rightarrow> (Inl e, c\<lparr>client := rc\<rparr>, w)
            | (Inr v, rc) \<Rightarrow>
                if cache_hit v options then
                  (case renew (c\<lparr>client := rc\<rparr>) computedKey expiration options of
                     Inl e \<Rightarrow> (Inl e, c\<lparr>client := rc\<rparr>, w)
                   | Inr c' \<Rightarrow>
                       if v = Some NULL_SYMBOL then (Inr JNull, c', w)
                       else (case JSON_parse (the v) of
                               Inl e \<Rightarrow> (Inl e, c', w)
                             | Inr parsed \<Rightarrow> (Inr parsed, c', w)))
                else retrieve_and_store (c\<lparr>client := rc\<rparr>) computedKey expiration retrieve options w)
         else retrieve_and_store c computedKey expiration retrieve options w)"

text \<open>
  \<^verbatim>\<open>transaction\<close> (lines 448--463). The secondary client is created for the URL of this
  client, so it sees the same server. \<^verbatim>\<open>MULTI\<close> and \<^verbatim>\<open>DISCARD\<close> are sent without waiting
  for the reply; \<^verbatim>\<open>EXEC\<close> is awaited inside the \<^verbatim>\<open>try\<close>, so its failure is handled like a
  failure of the callback. The result comes with the secondary client as the call leaves
  it (there is none when \<^verbatim>\<open>create\<close> fails). The server queues the commands it receives
  between \<^verbatim>\<open>MULTI\<close> and \<^verbatim>\<open>EXEC\<close>; the model of the store does not, and no property
  below depends on what the callback does to the store.
\<close>

definition transaction ::
  "string option \<Rightarrow> CacheClient \<Rightarrow> (CacheClient \<Rightarrow> (error + unit) \<times> CacheClient)
     \<Rightarrow> (error + unit) \<times> CacheClient option" where
  "transaction env_url this callback =
     (case create env_url (slots (client this)) (rejects (client this))
             (Some \<lparr>opt_url = Some (url this), cacheDurationInMs = None, keyPrefix = None\<rparr>) of
        Inl e \<Rightarrow> (Inl e, None)
      | Inr tempClient \<Rightarrow>
          (let t1 = tempClient\<lparr>client := snd (redis_send (client tempClient) ''MULTI'' [])\<rparr> in
           case callback t1 of
             (Inl e, t2) \<Rightarrow>
               (Inl e, Some (t2\<lparr>client := snd (redis_send (client t2) ''DISCARD'' [])\<rparr>))
           | (Inr u, t2) \<Rightarrow>
               (case redis_send (client t2) ''EXEC'' [] of
                  (Inl e, rc) \<Rightarrow>
                    (Inl e, Some (t2\<lparr>client := snd (redis_send rc ''DISCARD'' [])\<rparr>))
                | (Inr u', rc) \<Rightarrow> (Inr (), Some (t2\<lparr>client := rc\<rparr>)))))"

subsection \<open>Counting the invocations of a callback\<close>

text \<open>
  The tests of the repository count the invocations of the retrieval function with a
  counter that the callback increments. \<open>counted\<close> does the same to any callback: the
  counter is the first component of the caller's state.
\<close>

definition counted :: "('w \<Rightarrow> 'r \<times> 'w) \<Rightarrow> nat \<times> 'w \<Rightarrow> 'r \<times> (nat \<times> 'w)" where
  "counted retrieve = (\<lambda>(n, w). case retrieve w of (res, w') \<Rightarrow> (res, (Suc n, w')))"

subsection \<open>Notions used to state the properties\<close>

text \<open>
  A call reaches the retrieval step (line 418) when the cache is bypassed, or when the
  read succeeds and is not a hit.
\<close>

definition reaches_retrieval :: "CacheClient \<Rightarrow> key_input \<Rightarrow> CacheOption option \<Rightarrow> bool" where
  "reaches_retrieval c key options =
     (opt_field bypassCache options = Some True
      \<or> (case redis_get (client c) (computeCacheKey (getValueOrRetrieveKeyPrefix c) key) of
            (Inl e, rc) \<Rightarrow> False
          | (Inr v, rc) \<Rightarrow> \<not> cache_hit v options))"

text \<open>
  The renewal of a call does not throw: it is not requested, or the seconds of the call
  are a number that \<^verbatim>\<open>expire\<close> accepts.
\<close>

definition renewal_accepted :: "CacheClient \<Rightarrow> CacheOption option \<Rightarrow> bool" where
  "renewal_accepted c options =
     (opt_field renewCacheDurationOnAccess options = Some True \<longrightarrow>
        expire_accepts (expirationTime (getValueOrRetrieveCacheDurationInMs c) options))"

text \<open>The three components of the outcome of \<open>getValueOrRetrieve\<close>.\<close>

definition result_of :: "'r \<times> CacheClient \<times> 'w \<Rightarrow> 'r" where
  "result_of out = fst out"

definition client_after :: "'r \<times> CacheClient \<times> 'w \<Rightarrow> RedisClient" where
  "client_after out = client (fst (snd out))"

definition world_after :: "'r \<times> CacheClient \<times> 'w \<Rightarrow> 'w" where
  "world_after out = snd (snd out)"

text \<open>
  A client for the examples: connected to an empty store that rejects nothing, with the
  defaults of the constructor.
\<close>

definition demo_client :: CacheClient where
  "demo_client =
     \<lparr>client = \<lparr>slots = Map.empty, rejects = (\<lambda>cmd. False), connected = True, issued = []\<rparr>,
      url = ''redis://localhost:6379'',
      getValueOrRetrieveCacheDurationInMs = num_times (Fin 5) MINUTES,
      getValueOrRetrieveKeyPrefix = []\<rparr>"

text \<open>The same client with a string in the slot of a key.\<close>

definition demo_client_with :: "string \<Rightarrow> string \<Rightarrow> CacheClient" where
  "demo_client_with key v =
     demo_client\<lparr>client := write_slot (client demo_client) key v None\<rparr>"

text \<open>
  Options that ask for the renewal on access, with a raw duration in milliseconds.
\<close>

definition options_with_renewal :: "number \<Rightarrow> CacheOption" where
  "options_with_renewal ms =
     \<lparr>duration = Some (Raw ms), renewCacheDurationOnAccess = Some True,
      saveNullResponse = None, bypassCache = None\<rparr>"

definition options_with_saveNullResponse :: "bool \<Rightarrow> CacheOption" where
  "options_with_saveNullResponse b =
     \<lparr>duration = None, renewCacheDurationOnAccess = None, saveNullResponse = Some b,
      bypassCache = None\<rparr>"

text \<open>Two retrieval functions for the examples: one returns a value, one raises.\<close>

definition retrieve_returning :: "json \<Rightarrow> 'w \<Rightarrow> (error + json) \<times> 'w" where
  "retrieve_returning v w = (Inr v, w)"

definition retrieve_raising :: "string \<Rightarrow> 'w \<Rightarrow> (error + json) \<times> 'w" where
  "retrieve_raising msg w = (Inl (Thrown msg), w)"

text \<open>
  Calls of \<open>getValueOrRetrieve\<close> on one key, one after the other: each call has its own
  retrieval function and options, and runs on the client and the caller's state that the
  call before it left.
\<close>

fun call_sequence ::
  "CacheClient \<Rightarrow> key_input \<Rightarrow> (('w \<Rightarrow> (error + json) \<times> 'w) \<times> CacheOption option) list \<Rightarrow> 'w
     \<Rightarrow> CacheClient \<times> 'w" where
  "call_sequence c key [] w = (c, w)"
| "call_sequence c key (call # calls) w =
     (case getValueOrRetrieve c key (fst call) (snd call) w of
        (res, c', w') \<Rightarrow> call_sequence c' key calls w')"

text \<open>A client without the slot of a key: the store as it is when the key is absent.\<close>

definition without_slot :: "CacheClient \<Rightarrow> string \<Rightarrow> CacheClient" where
  "without_slot c k = c\<lparr>client := (client c)\<lparr>slots := (slots (client c))(k := None)\<rparr>\<rparr>"

text \<open>Two callbacks for \<open>transaction\<close>: one does nothing and succeeds, one raises.\<close>

definition tx_nothing :: "CacheClient \<Rightarrow> (error + unit) \<times> CacheClient" where
  "tx_nothing tx = (Inr (), tx)"

definition tx_raising :: "string \<Rightarrow> CacheClient \<Rightarrow> (error + unit) \<times> CacheClient" where
  "tx_raising msg tx = (Inl (Thrown msg), tx)"

subsection \<open>Values that JSON represents\<close>

text \<open>
  A finite number is serializable when the decimal that \<^verbatim>\<open>Number.prototype.toString\<close> writes
  for it reads back as the number. This holds for every double, and for no other
  rational. A value is serializable when its numbers are finite, serializable and not the
  negative zero, and the keys of each of its objects are distinct: these are the values
  that JSON represents.
\<close>

definition serializable_number :: "rat \<Rightarrow> bool" where
  "serializable_number q =
     (q = 0 \<or> (case shortest_decimal q of (s, e) \<Rightarrow> 0 < s \<and> reads_back q s e))"

fun serializable :: "json \<Rightarrow> bool" where
  "serializable (JNum x) = (case x of Fin q \<Rightarrow> serializable_number q | _ \<Rightarrow> False)"
| "serializable (JArr vs) = list_all serializable vs"
| "serializable (JObj ms) = (distinct (map fst ms) \<and> list_all (\<lambda>m. serializable (snd m)) ms)"
| "serializable v = True"

subsection \<open>Auxiliary notions for the round trip through JSON\<close>

text \<open>
  \<open>follow_ok\<close>: what may follow a number so that the number ends there.
  \<open>no_digit\<close>: what may follow digits so that the digits end there.
  \<open>need\<close>: a recursion depth that suffices to parse the serialisation of a value.
  \<open>first_ok\<close>: the characters a serialisation can start with.
\<close>

definition no_digit :: "string \<Rightarrow> bool" where
  "no_digit r = (r = [] \<or> \<not> is_digit (hd r))"

definition follow_ok :: "string \<Rightarrow> bool" where
  "follow_ok rest =
     (rest = [] \<or> (\<not> is_digit (hd rest) \<and> hd rest \<noteq> CHR ''.'' \<and> hd rest \<noteq> CHR ''e'' \<and> hd rest \<noteq> CHR ''E''))"

fun need :: "json \<Rightarrow> nat" where
  "need (JArr vs) = Suc (sum_list (map (\<lambda>v. Suc (need v)) vs))"
| "need (JObj ms) = Suc (sum_list (map (\<lambda>m. Suc (need (snd m))) ms))"
| "need v = 1"

definition first_ok :: "char \<Rightarrow> bool" where
  "first_ok c = (is_digit c \<or> c \<in> set ''ntf-[{'' \<or> c = CHR 0x22)"

section \<open>Properties\<close>

subsection \<open>The binary exponent, and numbers that are computed without rounding\<close>

lemma bit_length_le: "0 \<le> j \<Longrightarrow> n < 2 ^ nat j \<Longrightarrow> bit_length n \<le> j"
proof (induction n arbitrary: j rule: bit_length.induct)
  case (1 n)
  show ?case
  proof (cases "n \<le> 0")
    case True
    then show ?thesis using 1(2) by (simp add: bit_length.simps)
  next
    case False
    then have "0 < j" using 1(2,3) by (cases "j = 0") auto
    then have j: "nat j = Suc (nat (j - 1))" by simp
    have "n div 2 < 2 ^ nat (j - 1)" using 1(3) unfolding j by simp
    from 1(1) [OF False _ this] \<open>0 < j\<close> have "bit_length (n div 2) \<le> j - 1" by simp
    then show ?thesis using False by (subst bit_length.simps) simp
  qed
qed

lemma bit_length_one: "bit_length 1 = 1"
  by (simp add: bit_length.simps)

lemma bit_length_bounds:
  assumes "0 < n"
  shows "2 ^ nat (bit_length n - 1) \<le> n \<and> n < 2 ^ nat (bit_length n) \<and> 0 < bit_length n"
  using assms
proof (induction n rule: bit_length.induct)
  case (1 n)
  show ?case
  proof (cases "n = 1")
    case True
    then show ?thesis by (simp add: bit_length_one)
  next
    case False
    then have h: "0 < n div 2" using 1(2) by simp
    have nz: "\<not> n \<le> 0" using 1(2) by simp
    from 1(1) [OF nz h] have IH: "2 ^ nat (bit_length (n div 2) - 1) \<le> n div 2"
      "n div 2 < 2 ^ nat (bit_length (n div 2))" "0 < bit_length (n div 2)"
      by simp_all
    have b: "bit_length n = 1 + bit_length (n div 2)"
      using nz by (subst bit_length.simps) simp
    have e1: "nat (bit_length n - 1) = Suc (nat (bit_length (n div 2) - 1))"
      using IH(3) by (simp add: b)
    have e2: "nat (bit_length n) = Suc (nat (bit_length (n div 2)))"
      using IH(3) by (simp add: b)
    have "2 * 2 ^ nat (bit_length (n div 2) - 1) \<le> n" using IH(1) by linarith
    then have lo: "2 ^ nat (bit_length n - 1) \<le> n" unfolding e1 by simp
    have "n < 2 * 2 ^ nat (bit_length (n div 2))" using IH(2) by linarith
    then have hi: "n < 2 ^ nat (bit_length n)" unfolding e2 by simp
    have "0 < bit_length n" using IH(3) b by simp
    then show ?thesis using lo hi by blast
  qed
qed

lemma pow2_nat: "0 \<le> e \<Longrightarrow> pow2 e = 2 ^ nat e"
  by (simp add: pow2_def power_int_def)

lemma pow2_add: "pow2 (a + b) = pow2 a * pow2 b"
  by (simp add: pow2_def power_int_add)

lemma pow2_pos: "0 < pow2 e"
  by (simp add: pow2_def)

lemma pow2_mono: "a \<le> b \<Longrightarrow> pow2 a \<le> pow2 b"
  by (simp add: pow2_def power_int_increasing)

lemma pow2_strict_mono: "a < b \<Longrightarrow> pow2 a < pow2 b"
  by (simp add: pow2_def power_int_strict_increasing)

lemma int_between_pow2:
  assumes "0 < n"
  shows "pow2 (bit_length n - 1) \<le> of_int n \<and> of_int n < pow2 (bit_length n)"
proof -
  from bit_length_bounds [OF assms]
  have a: "2 ^ nat (bit_length n - 1) \<le> n" and b: "n < 2 ^ nat (bit_length n)" and c: "0 < bit_length n"
    by simp_all
  have "(of_int (2 ^ nat (bit_length n - 1)) :: rat) \<le> of_int n"
    using a by (simp only: of_int_le_iff)
  moreover have "(of_int n :: rat) < of_int (2 ^ nat (bit_length n))"
    using b by (simp only: of_int_less_iff)
  ultimately show ?thesis using c by (simp add: pow2_nat)
qed

lemma ilog2_bounds:
  assumes "0 < x"
  shows "pow2 (ilog2 x) \<le> x \<and> x < pow2 (ilog2 x + 1)"
proof -
  obtain p q where pq: "quotient_of x = (p, q)" by (cases "quotient_of x")
  have q: "0 < q" using pq by (rule quotient_of_denom_pos)
  have x: "x = of_int p / of_int q" using pq by (rule quotient_of_div)
  have p: "0 < p" using assms q x by (simp add: zero_less_divide_iff)
  define d where "d = bit_length p - bit_length q"
  note P = int_between_pow2 [OF p] and Q = int_between_pow2 [OF q]
  have qpos: "(0 :: rat) < of_int q" using q by simp
  have up: "x < pow2 (d + 1)"
  proof -
    have "of_int p < pow2 (bit_length p)" using P by simp
    also have "\<dots> = pow2 (d + 1) * pow2 (bit_length q - 1)"
      by (simp add: d_def flip: pow2_add)
    also have "\<dots> \<le> pow2 (d + 1) * of_int q"
      using Q pow2_pos [of "d + 1"] by (simp add: mult_left_mono)
    finally show ?thesis using qpos by (simp add: x pos_divide_less_eq)
  qed
  have low: "pow2 (d - 1) \<le> x"
  proof -
    have "pow2 (d - 1) * of_int q \<le> pow2 (d - 1) * pow2 (bit_length q)"
      using Q pow2_pos [of "d - 1"] by (simp add: mult_left_mono less_imp_le)
    also have "\<dots> = pow2 (bit_length p - 1)"
      by (simp add: d_def flip: pow2_add)
    also have "\<dots> \<le> of_int p" using P by simp
    finally show ?thesis using qpos by (simp add: x pos_le_divide_eq)
  qed
  have i: "ilog2 x = (if pow2 d \<le> x then d else d - 1)"
    by (simp add: ilog2_def Let_def pq d_def)
  show ?thesis
  proof (cases "pow2 d \<le> x")
    case True
    then show ?thesis using up i by simp
  next
    case False
    then show ?thesis using low i by simp
  qed
qed

lemma ilog2_int_le:
  assumes "0 < n" and "n < 2 ^ 53"
  shows "ilog2 (of_int n) \<le> 52"
proof -
  have "bit_length n \<le> 53" using bit_length_le [of 53 n] assms(2) by simp
  then show ?thesis
    by (simp add: ilog2_def Let_def bit_length_one)
qed

lemma round_half_even_of_int: "round_half_even (of_int m) = m"
  by (simp add: round_half_even_def)

lemma to_double_of_int:
  assumes "\<bar>n\<bar> < 2 ^ 53"
  shows "to_double (of_int n) = Fin (of_int n)"
proof (cases "n = 0")
  case True
  then show ?thesis by (simp add: to_double_def)
next
  case False
  define e where "e = max (ilog2 \<bar>of_int n\<bar> - 52) (- 1074)"
  have "ilog2 \<bar>of_int n :: rat\<bar> \<le> 52"
    using ilog2_int_le [of "\<bar>n\<bar>"] False assms by simp
  then have e: "e \<le> 0" by (simp add: e_def)
  have p: "pow2 e = 1 / 2 ^ nat (- e)"
    using e by (simp add: pow2_def power_int_def field_simps)
  have q: "of_int n / pow2 e = of_int (n * 2 ^ nat (- e))"
    by (simp add: p)
  have m: "round_half_even (of_int n / pow2 e) = n * 2 ^ nat (- e)"
    unfolding q by (rule round_half_even_of_int)
  have rt: "of_int (n * 2 ^ nat (- e)) * pow2 e = (of_int n :: rat)"
    by (simp add: p)
  have nz: "n * 2 ^ nat (- e) \<noteq> 0" using False by simp
  show ?thesis
    using False e rt nz unfolding to_double_def Let_def e_def [symmetric] m
    by simp
qed

lemma num_times_int:
  assumes "\<bar>a * b\<bar> < 2 ^ 53" and "0 < a"
  shows "num_times (Fin (of_int a)) (Fin (of_int b)) = Fin (of_int (a * b))"
  using to_double_of_int [OF assms(1)] assms(2)
  by (auto simp: num_times_def value_of_def negative_def signed_zero_def)

lemma num_divide_int:
  assumes "0 < b" and "\<bar>c\<bar> < 2 ^ 53"
  shows "num_divide (Fin (of_int (c * b))) (Fin (of_int b)) = Fin (of_int c)"
  using to_double_of_int [OF assms(2)] assms(1)
  by (auto simp: num_divide_def value_of_def negative_def signed_zero_def)

lemma num_times_Fin: "a * b \<noteq> 0 \<Longrightarrow> num_times (Fin a) (Fin b) = to_double (a * b)"
  by (simp add: num_times_def value_of_def)

lemma num_divide_Fin: "a \<noteq> 0 \<Longrightarrow> b \<noteq> 0 \<Longrightarrow> num_divide (Fin a) (Fin b) = to_double (a / b)"
  by (simp add: num_divide_def value_of_def)

lemma MINUTES_value: "MINUTES = Fin 60000"
  using num_times_int [of 60 1000] by (simp add: MINUTES_def SECONDS_def)

lemma HOURS_value: "HOURS = Fin 3600000"
  using num_times_int [of 60 60000] by (simp add: HOURS_def MINUTES_value)

lemma five_minutes: "num_times (Fin 5) MINUTES = Fin 300000"
  using num_times_int [of 5 60000] by (simp add: MINUTES_value)

lemma seconds_of_five_minutes: "num_divide (Fin 300000) SECONDS = Fin 300"
  using num_divide_int [of 1000 300] by (simp add: SECONDS_def)

subsection \<open>\<open>JSON_parse\<close> inverts \<open>JSON_stringify\<close>\<close>

lemma of_char_digit_char: "0 \<le> d \<Longrightarrow> d < 10 \<Longrightarrow> (of_char (digit_char d) :: nat) = 48 + nat d"
  by (simp add: digit_char_def)

lemma is_digit_digit_char: "d < 10 \<Longrightarrow> is_digit (digit_char d)"
  by (cases "0 \<le> d") (simp_all add: is_digit_def digit_char_def)

lemma digit_val_digit_char: "0 \<le> d \<Longrightarrow> d < 10 \<Longrightarrow> digit_val (digit_char d) = d"
  by (simp add: digit_val_def of_char_digit_char)

lemma digit_char_zero: "0 \<le> d \<Longrightarrow> d < 10 \<Longrightarrow> digit_char d = CHR ''0'' \<longleftrightarrow> d = 0"
proof -
  assume d: "0 \<le> d" "d < 10"
  have "digit_char d = CHR ''0'' \<longleftrightarrow> (of_char (digit_char d) :: nat) = of_char (CHR ''0'')"
    by (metis of_char_eq_iff)
  then show ?thesis using d by (simp add: of_char_digit_char)
qed

lemma show_digits_digits: "\<forall>c \<in> set (show_digits n). is_digit c"
proof (induction n rule: show_digits.induct)
  case (1 n)
  show ?case
  proof (cases "n < 10")
    case True
    then show ?thesis by (subst show_digits.simps) (simp add: is_digit_digit_char)
  next
    case False
    then show ?thesis using 1 by (subst show_digits.simps) (simp add: is_digit_digit_char)
  qed
qed

lemma show_digits_nonempty: "show_digits n \<noteq> []"
  by (subst show_digits.simps) simp

lemma digits_val_snoc: "digits_val (ds @ [c]) = 10 * digits_val ds + digit_val c"
  by (simp add: digits_val_def)

lemma digits_val_show_digits: "0 \<le> n \<Longrightarrow> digits_val (show_digits n) = n"
proof (induction n rule: show_digits.induct)
  case (1 n)
  show ?case
  proof (cases "n < 10")
    case True
    then show ?thesis using 1(2)
      by (subst show_digits.simps) (simp add: digits_val_def digit_val_digit_char)
  next
    case False
    then have "digits_val (show_digits n) = 10 * (n div 10) + n mod 10"
      using 1 by (subst show_digits.simps) (simp add: digits_val_snoc digit_val_digit_char)
    then show ?thesis by simp
  qed
qed

lemma hd_show_digits_pos: "0 < n \<Longrightarrow> hd (show_digits n) \<noteq> CHR ''0''"
proof (induction n rule: show_digits.induct)
  case (1 n)
  show ?case
  proof (cases "n < 10")
    case True
    then show ?thesis using 1(2)
      by (subst show_digits.simps) (simp add: digit_char_zero)
  next
    case False
    then have "hd (show_digits (n div 10)) \<noteq> CHR ''0''" using 1 by simp
    then show ?thesis using False
      by (subst show_digits.simps) (simp add: show_digits_nonempty)
  qed
qed

lemma digits_val_append:
  "digits_val (a @ b) = digits_val a * 10 ^ length b + digits_val b"
proof (induction b rule: rev_induct)
  case Nil
  then show ?case by (simp add: digits_val_def)
next
  case (snoc c b)
  have "digits_val (a @ b @ [c]) = 10 * digits_val (a @ b) + digit_val c"
    using digits_val_snoc [of "a @ b" c] by simp
  then show ?case using snoc by (simp add: digits_val_snoc algebra_simps)
qed

lemma digits_val_zeros: "digits_val (replicate m (CHR ''0'')) = 0"
proof (induction m)
  case 0
  then show ?case by (simp add: digits_val_def)
next
  case (Suc m)
  have "replicate (Suc m) (CHR ''0'') = replicate m (CHR ''0'') @ [CHR ''0'']"
    by (simp add: replicate_append_same)
  then show ?case using Suc by (simp only: digits_val_snoc) (simp add: digit_val_def)
qed

lemma is_digit_zero: "is_digit (CHR ''0'')"
  by (simp add: is_digit_def)

lemma span_digits:
  assumes "\<forall>c \<in> set ds. is_digit c" and "no_digit r"
  shows "takeWhile is_digit (ds @ r) = ds" and "dropWhile is_digit (ds @ r) = r"
proof -
  have r: "takeWhile is_digit r = []" "dropWhile is_digit r = r"
    using assms(2) by (cases r; simp add: no_digit_def)+
  show "takeWhile is_digit (ds @ r) = ds"
    using assms(1) r by (simp add: takeWhile_append2)
  show "dropWhile is_digit (ds @ r) = r"
    using assms(1) r by (simp add: dropWhile_append2)
qed

lemma follow_ok_no_digit: "follow_ok r \<Longrightarrow> no_digit r"
  by (auto simp: follow_ok_def no_digit_def)

lemma parse_fraction_none:
  assumes "r = [] \<or> hd r \<noteq> CHR ''.''"
  shows "parse_fraction r = Some ([], r)"
  using assms by (auto simp: parse_fraction_def)

lemma parse_fraction_point:
  assumes "\<forall>c \<in> set fs. is_digit c" and "fs \<noteq> []" and "no_digit r"
  shows "parse_fraction (CHR ''.'' # fs @ r) = Some (fs, r)"
  using assms(2) by (simp add: parse_fraction_def span_digits [OF assms(1,3)])

lemma parse_exponent_none:
  assumes "r = [] \<or> (hd r \<noteq> CHR ''e'' \<and> hd r \<noteq> CHR ''E'')"
  shows "parse_exponent r = Some (0, r)"
  using assms by (auto simp: parse_exponent_def)

lemma parse_exponent_plus:
  assumes "\<forall>c \<in> set es. is_digit c" and "es \<noteq> []" and "no_digit r"
  shows "parse_exponent (CHR ''e'' # CHR ''+'' # es @ r) = Some (digits_val es, r)"
  using assms(2) by (simp add: parse_exponent_def Let_def span_digits [OF assms(1,3)])

lemma parse_exponent_minus:
  assumes "\<forall>c \<in> set es. is_digit c" and "es \<noteq> []" and "no_digit r"
  shows "parse_exponent (CHR ''e'' # CHR ''-'' # es @ r) = Some (- digits_val es, r)"
  using assms(2) by (simp add: parse_exponent_def Let_def span_digits [OF assms(1,3)])

lemma parse_unsigned_lex:
  assumes "\<forall>c \<in> set ds. is_digit c" and "ds \<noteq> []" and "hd ds = CHR ''0'' \<longrightarrow> length ds = 1"
    and "no_digit r"
    and "parse_fraction r = Some (fs, r1)" and "parse_exponent r1 = Some (ex, r2)"
  shows "parse_unsigned neg (ds @ r)
    = Some (JNum (decimal_value neg (ds @ fs) (ex - int (length fs))), r2)"
  using assms(2,3,5,6) by (auto simp: parse_unsigned_def Let_def span_digits [OF assms(1,4)])


lemma pow10_nat: "pow10 (int m) = 10 ^ m"
  by (simp add: pow10_def)

lemma pow10_neg: "pow10 (- int m) = 1 / 10 ^ m"
  by (simp add: pow10_def power_int_minus field_simps)

lemma no_digit_facts [simp]:
  "no_digit (CHR ''.'' # r)" "no_digit (CHR ''e'' # r)" "no_digit []"
  by (simp_all add: no_digit_def is_digit_def)

lemma decimal_value_eq:
  assumes "digits_val ds = s" and "x = e" and "s \<noteq> 0"
  shows "decimal_value neg ds x = to_double ((if neg then - of_int s else of_int s) * pow10 e)"
  using assms by (simp add: decimal_value_def)

lemma parse_unsigned_show_decimal:
  assumes "0 < s" and "follow_ok rest"
  shows "parse_unsigned neg (show_decimal s e @ rest)
    = Some (JNum (to_double ((if neg then - of_int s else of_int s) * pow10 e)), rest)"
proof -
  define ds where "ds = show_digits s"
  define k where "k = int (length ds)"
  define n where "n = k + e"
  have dig: "\<forall>c \<in> set ds. is_digit c" by (simp add: ds_def show_digits_digits)
  have ne: "ds \<noteq> []" by (simp add: ds_def show_digits_nonempty)
  have h0: "hd ds \<noteq> CHR ''0''" using assms(1) by (simp add: ds_def hd_show_digits_pos)
  have val: "digits_val ds = s" using assms(1) by (simp add: ds_def digits_val_show_digits)
  have kpos: "0 < k" using ne by (simp add: k_def)
  have sn: "s \<noteq> 0" using assms(1) by simp
  have e: "e = n - k" by (simp add: n_def)
  have nd: "no_digit rest" using assms(2) by (rule follow_ok_no_digit)
  have fr: "parse_fraction rest = Some ([], rest)"
    using assms(2) by (intro parse_fraction_none) (auto simp: follow_ok_def)
  have ex: "parse_exponent rest = Some (0, rest)"
    using assms(2) by (intro parse_exponent_none) (auto simp: follow_ok_def)
  have sd: "show_decimal s e =
     (if k \<le> n \<and> n \<le> 21 then ds @ replicate (nat (n - k)) (CHR ''0'')
      else if 0 < n \<and> n \<le> 21 then take (nat n) ds @ ''.'' @ drop (nat n) ds
      else if - 6 < n \<and> n \<le> 0 then ''0.'' @ replicate (nat (- n)) (CHR ''0'') @ ds
      else [hd ds] @ (if k = 1 then [] else ''.'' @ tl ds) @ ''e''
           @ (if 0 \<le> n - 1 then ''+'' else ''-'') @ show_digits \<bar>n - 1\<bar>)"
    by (simp add: show_decimal_def Let_def ds_def k_def n_def)
  consider (A) "k \<le> n \<and> n \<le> 21"
    | (B) "\<not> (k \<le> n \<and> n \<le> 21)" "0 < n \<and> n \<le> 21"
    | (C) "\<not> (k \<le> n \<and> n \<le> 21)" "\<not> (0 < n \<and> n \<le> 21)" "- 6 < n \<and> n \<le> 0"
    | (D) "\<not> (k \<le> n \<and> n \<le> 21)" "\<not> (0 < n \<and> n \<le> 21)" "\<not> (- 6 < n \<and> n \<le> 0)"
    by blast
  then show ?thesis
  proof cases
    case A
    define zs where "zs = replicate (nat (n - k)) (CHR ''0'')"
    have s1: "show_decimal s e @ rest = (ds @ zs) @ rest" using A by (simp add: sd zs_def)
    have d1: "\<forall>c \<in> set (ds @ zs). is_digit c" using dig by (auto simp: zs_def is_digit_zero)
    have v1: "digits_val ((ds @ zs) @ []) = s * 10 ^ nat (n - k)"
      by (simp add: digits_val_append val zs_def digits_val_zeros)
    have p: "parse_unsigned neg ((ds @ zs) @ rest)
        = Some (JNum (decimal_value neg ((ds @ zs) @ []) (0 - int (length ([] :: string)))), rest)"
      using ne h0 by (intro parse_unsigned_lex [OF d1 _ _ nd fr ex]) simp_all
    have pe: "pow10 e = 10 ^ nat (n - k)"
      using A pow10_nat [of "nat (n - k)"] by (simp add: e)
    have nz1: "s * 10 ^ nat (n - k) \<noteq> 0" using sn by simp
    have "decimal_value neg ((ds @ zs) @ []) (0 - int (length ([] :: string)))
        = to_double ((if neg then - of_int (s * 10 ^ nat (n - k)) else of_int (s * 10 ^ nat (n - k)))
            * pow10 (0 - int (length ([] :: string))))"
      by (rule decimal_value_eq [OF v1 refl nz1])
    also have "\<dots> = to_double ((if neg then - of_int s else of_int s) * pow10 e)"
      by (simp add: pe) (simp add: pow10_def)
    finally have "decimal_value neg ((ds @ zs) @ []) (0 - int (length ([] :: string)))
        = to_double ((if neg then - of_int s else of_int s) * pow10 e)" .
    then show ?thesis using p s1 by simp
  next
    case B
    then have nk: "n < k" "0 < n" by auto
    define d1 where "d1 = take (nat n) ds"
    define fs where "fs = drop (nat n) ds"
    have s1: "show_decimal s e @ rest = d1 @ (CHR ''.'' # fs @ rest)"
      using B by (simp add: sd d1_def fs_def)
    have dd: "\<forall>c \<in> set d1. is_digit c" "\<forall>c \<in> set fs. is_digit c"
      using dig by (auto simp: d1_def fs_def dest: in_set_takeD in_set_dropD)
    have d1ne: "d1 \<noteq> []" using nk ne by (simp add: d1_def)
    have fsne: "fs \<noteq> []" using nk by (simp add: fs_def k_def)
    have hd1: "hd d1 = hd ds" using nk by (simp add: d1_def)
    have f1: "parse_fraction (CHR ''.'' # fs @ rest) = Some (fs, rest)"
      by (rule parse_fraction_point [OF dd(2) fsne nd])
    have p: "parse_unsigned neg (d1 @ (CHR ''.'' # fs @ rest))
        = Some (JNum (decimal_value neg (d1 @ fs) (0 - int (length fs))), rest)"
      using d1ne h0 hd1 by (intro parse_unsigned_lex [OF dd(1) _ _ _ f1 ex]) simp_all
    have v: "digits_val (d1 @ fs) = s" by (simp add: d1_def fs_def val)
    have x: "0 - int (length fs) = e" using nk by (simp add: fs_def e k_def)
    show ?thesis using p s1 decimal_value_eq [OF v x sn] by simp
  next
    case C
    define zs where "zs = replicate (nat (- n)) (CHR ''0'')"
    have s1: "show_decimal s e @ rest = ''0'' @ (CHR ''.'' # (zs @ ds) @ rest)"
      using C by (simp add: sd zs_def)
    have dd: "\<forall>c \<in> set ''0''. is_digit c" "\<forall>c \<in> set (zs @ ds). is_digit c"
      using dig by (auto simp: zs_def is_digit_zero)
    have f1: "parse_fraction (CHR ''.'' # (zs @ ds) @ rest) = Some (zs @ ds, rest)"
      using ne by (intro parse_fraction_point [OF dd(2) _ nd]) simp
    have p: "parse_unsigned neg (''0'' @ (CHR ''.'' # (zs @ ds) @ rest))
        = Some (JNum (decimal_value neg (''0'' @ (zs @ ds)) (0 - int (length (zs @ ds)))), rest)"
      by (intro parse_unsigned_lex [OF dd(1) _ _ _ f1 ex]) simp_all
    have z: "digits_val ''0'' = 0" by (simp add: digits_val_def digit_val_def)
    have v: "digits_val (''0'' @ (zs @ ds)) = s"
      using digits_val_append [of "''0''" "zs @ ds"] digits_val_append [of zs ds]
      by (simp add: z val zs_def digits_val_zeros)
    have x: "0 - int (length (zs @ ds)) = e" using C by (simp add: zs_def e k_def)
    show ?thesis using p s1 decimal_value_eq [OF v x sn] by simp
  next
    case D
    define es where "es = show_digits \<bar>n - 1\<bar>"
    define sg where "sg = (if 0 \<le> n - 1 then CHR ''+'' else CHR ''-'')"
    define tail where "tail = CHR ''e'' # sg # es @ rest"
    have de: "\<forall>c \<in> set es. is_digit c" "es \<noteq> []"
      by (simp_all add: es_def show_digits_digits show_digits_nonempty)
    have ve: "digits_val es = \<bar>n - 1\<bar>" by (simp add: es_def digits_val_show_digits)
    have x1: "parse_exponent tail = Some (n - 1, rest)"
    proof (cases "0 \<le> n - 1")
      case True
      then show ?thesis
        using parse_exponent_plus [OF de nd] by (simp add: tail_def sg_def ve)
    next
      case False
      then show ?thesis
        using parse_exponent_minus [OF de nd] by (simp add: tail_def sg_def ve)
    qed
    have dh: "\<forall>c \<in> set [hd ds]. is_digit c" using dig ne by simp
    have sD: "show_decimal s e = [hd ds] @ (if k = 1 then [] else ''.'' @ tl ds) @ ''e''
           @ (if 0 \<le> n - 1 then ''+'' else ''-'') @ show_digits \<bar>n - 1\<bar>"
      by (simp only: sd D if_False)
    show ?thesis
    proof (cases "k = 1")
      case True
      then have ds1: "ds = [hd ds]" using ne by (cases ds) (simp_all add: k_def)
      have s1: "show_decimal s e @ rest = [hd ds] @ tail"
        using True by (simp add: sD tail_def sg_def es_def)
      have f1: "parse_fraction tail = Some ([], tail)"
        by (intro parse_fraction_none) (simp add: tail_def)
      have p: "parse_unsigned neg ([hd ds] @ tail)
          = Some (JNum (decimal_value neg ([hd ds] @ []) (n - 1 - int (length ([] :: string)))), rest)"
        by (intro parse_unsigned_lex [OF dh _ _ _ f1 x1]) (simp_all add: tail_def)
      have v: "digits_val ([hd ds] @ []) = s" using ds1 val by simp
      have x: "n - 1 - int (length ([] :: string)) = e" using True by (simp add: e)
      show ?thesis using p s1 decimal_value_eq [OF v x sn] by simp
    next
      case False
      then have k2: "1 < k" using kpos by simp
      have s1: "show_decimal s e @ rest = [hd ds] @ (CHR ''.'' # tl ds @ tail)"
        using False by (simp add: sD tail_def sg_def es_def)
      have dt: "\<forall>c \<in> set (tl ds). is_digit c" using dig ne by (cases ds) auto
      have tne: "tl ds \<noteq> []" using k2 by (cases ds) (simp_all add: k_def)
      have f1: "parse_fraction (CHR ''.'' # tl ds @ tail) = Some (tl ds, tail)"
        by (intro parse_fraction_point [OF dt tne]) (simp add: tail_def)
      have p: "parse_unsigned neg ([hd ds] @ (CHR ''.'' # tl ds @ tail))
          = Some (JNum (decimal_value neg ([hd ds] @ tl ds) (n - 1 - int (length (tl ds)))), rest)"
        by (intro parse_unsigned_lex [OF dh _ _ _ f1 x1]) simp_all
      have v: "digits_val ([hd ds] @ tl ds) = s" using ne val by simp
      have "int (length (tl ds)) = k - 1" using ne by (cases ds) (simp_all add: k_def)
      then have x: "n - 1 - int (length (tl ds)) = e" by (simp add: e)
      show ?thesis using p s1 decimal_value_eq [OF v x sn] by simp
    qed
  qed
qed


lemma show_decimal_first: "\<exists>c cs. show_decimal s e = c # cs \<and> is_digit c"
proof -
  obtain d dr where d: "show_digits s = d # dr" "is_digit d"
    using show_digits_nonempty [of s] show_digits_digits [of s] by (cases "show_digits s") auto
  show ?thesis
    unfolding show_decimal_def Let_def d(1) using d(2)
    by (auto simp: take_Cons' is_digit_zero)
qed

lemma show_number_first: "\<exists>c cs. show_number q = c # cs \<and> (is_digit c \<or> c = CHR ''-'')"
proof (cases "q = 0")
  case True
  then show ?thesis by (simp add: show_number_def is_digit_zero)
next
  case False
  obtain s e where se: "shortest_decimal q = (s, e)" by (cases "shortest_decimal q")
  obtain c cs where "show_decimal s e = c # cs" "is_digit c"
    using show_decimal_first by blast
  then show ?thesis using False se by (simp add: show_number_def)
qed

lemma parse_number_show_number:
  assumes "serializable_number q" and "follow_ok rest"
  shows "parse_number (show_number q @ rest) = Some (JNum (Fin q), rest)"
proof (cases "q = 0")
  case True
  have dz: "\<forall>c \<in> set ''0''. is_digit c" by (simp add: is_digit_zero)
  have fr: "parse_fraction rest = Some ([], rest)"
    using assms(2) by (intro parse_fraction_none) (auto simp: follow_ok_def)
  have ex: "parse_exponent rest = Some (0, rest)"
    using assms(2) by (intro parse_exponent_none) (auto simp: follow_ok_def)
  have "parse_unsigned False (''0'' @ rest)
      = Some (JNum (decimal_value False (''0'' @ []) (0 - int (length ([] :: string)))), rest)"
    by (intro parse_unsigned_lex [OF dz _ _ follow_ok_no_digit [OF assms(2)] fr ex]) simp_all
  moreover have "decimal_value False (''0'' @ []) (0 - int (length ([] :: string))) = Fin 0"
    by (simp add: decimal_value_def digits_val_def digit_val_def signed_zero_def)
  ultimately show ?thesis
    using True by (simp add: show_number_def parse_number_def)
next
  case False
  obtain s e where se: "shortest_decimal q = (s, e)" by (cases "shortest_decimal q")
  have s: "0 < s" and rb: "to_double (of_int (signum q * s) * pow10 e) = Fin q"
    using assms(1) False se by (simp_all add: serializable_number_def reads_back_def)
  obtain c cs where c: "show_decimal s e = c # cs" "is_digit c"
    using show_decimal_first by blast
  have nm: "c \<noteq> CHR ''-''" using c(2) by (auto simp: is_digit_def)
  show ?thesis
  proof (cases "q < 0")
    case True
    have "parse_number (show_number q @ rest) = parse_unsigned True (show_decimal s e @ rest)"
      using True False se by (simp add: show_number_def parse_number_def)
    also have "\<dots> = Some (JNum (to_double ((- of_int s) * pow10 e)), rest)"
      using parse_unsigned_show_decimal [OF s assms(2), of True e] by simp
    finally show ?thesis using rb True by (simp add: signum_def)
  next
    case pos: False
    have "parse_number (show_number q @ rest) = parse_unsigned False (show_decimal s e @ rest)"
      using pos False se c nm by (simp add: show_number_def parse_number_def)
    also have "\<dots> = Some (JNum (to_double (of_int s * pow10 e)), rest)"
      using parse_unsigned_show_decimal [OF s assms(2), of False e] by simp
    finally show ?thesis using rb pos by (simp add: signum_def)
  qed
qed

lemma foldl_put_member:
  "distinct (map fst (acc @ ms)) \<Longrightarrow> foldl put_member acc ms = acc @ ms"
proof (induction ms arbitrary: acc)
  case Nil
  then show ?case by simp
next
  case (Cons m ms)
  have "put_member acc m = acc @ [m]"
    using Cons.prems by (auto simp: put_member_def)
  moreover have "distinct (map fst ((acc @ [m]) @ ms))" using Cons.prems by simp
  ultimately show ?case using Cons.IH [of "acc @ [m]"] by simp
qed

lemma object_of_distinct: "distinct (map fst ms) \<Longrightarrow> object_of ms = JObj ms"
  using foldl_put_member [of "[]" ms] by (simp add: object_of_def)


lemma hex_val_hex_char: "d < 16 \<Longrightarrow> hex_val (hex_char d) = Some d"
  by (auto simp: hex_val_def hex_char_def Let_def)

lemma hex4_escape:
  assumes "n < 32"
  shows "hex4 (CHR ''0'') (CHR ''0'') (hex_char (n div 16)) (hex_char (n mod 16)) = Some n"
proof -
  have a: "hex_val (CHR ''0'') = Some 0" by (simp add: hex_val_def)
  have b: "hex_val (hex_char (n div 16)) = Some (n div 16)"
    using assms by (intro hex_val_hex_char) simp
  have c: "hex_val (hex_char (n mod 16)) = Some (n mod 16)"
    by (intro hex_val_hex_char) simp
  show ?thesis by (simp add: hex4_def a b c)
qed

lemma parse_chars_escape_char:
  "parse_chars (escape_char c @ tail) = cons_chars c (parse_chars tail)"
proof -
  consider (special) "c \<in> {CHR 0x22, CHR 0x5C, CHR 0x08, CHR 0x0C, CHR 0x0A, CHR 0x0D, CHR 0x09}"
    | (control) "c \<notin> {CHR 0x22, CHR 0x5C, CHR 0x08, CHR 0x0C, CHR 0x0A, CHR 0x0D, CHR 0x09}"
        "(of_char c :: nat) < 32"
    | (plain) "c \<notin> {CHR 0x22, CHR 0x5C, CHR 0x08, CHR 0x0C, CHR 0x0A, CHR 0x0D, CHR 0x09}"
        "\<not> (of_char c :: nat) < 32"
    by blast
  then show ?thesis
  proof cases
    case special
    then show ?thesis by (auto simp: escape_char_def unescape_def)
  next
    case control
    have "char_of (of_char c :: nat) = c" by simp
    with control show ?thesis
      by (simp add: escape_char_def hex4_escape)
  next
    case plain
    then show ?thesis by (simp add: escape_char_def)
  qed
qed

lemma parse_chars_escaped:
  "parse_chars (concat (map escape_char s) @ CHR 0x22 # rest) = Some (s, rest)"
  by (induction s) (simp_all add: parse_chars_escape_char cons_chars_def)

lemma parse_chars_quote:
  "parse_chars (tl (quote s) @ rest) = Some (s, rest)"
  using parse_chars_escaped [of s rest] by (simp add: quote_def)

lemma first_ok_facts:
  "first_ok c \<Longrightarrow> \<not> is_ws c \<and> c \<noteq> CHR '']'' \<and> c \<noteq> CHR ''}''"
  by (auto simp: first_ok_def is_ws_def is_digit_def)

lemma skip_ws_Cons: "\<not> is_ws c \<Longrightarrow> skip_ws (c # r) = c # r"
  by (simp add: skip_ws_def)

lemma stringify_first: "\<exists>c cs. JSON_stringify v = c # cs \<and> first_ok c"
proof (cases v)
  case (JNum x)
  show ?thesis
  proof (cases x)
    case (Fin q)
    then show ?thesis using JNum show_number_first [of q] by (auto simp: first_ok_def)
  qed (simp_all add: JNum first_ok_def is_digit_zero)
qed (auto simp: first_ok_def quote_def)

lemma parse_value_number:
  assumes "is_digit c \<or> c = CHR ''-''"
  shows "parse_value (Suc n) (c # r) = parse_number (c # r)"
proof -
  have "\<not> is_ws c" "c \<noteq> CHR ''n''" "c \<noteq> CHR ''t''" "c \<noteq> CHR ''f''" "c \<noteq> CHR 0x22"
    "c \<noteq> CHR ''[''" "c \<noteq> CHR ''{''"
    using assms by (auto simp: is_digit_def is_ws_def)
  then show ?thesis by (simp add: skip_ws_Cons)
qed

lemma follow_ok_sep [simp]:
  "follow_ok (CHR '','' # r)" "follow_ok (CHR '']'' # r)" "follow_ok (CHR ''}'' # r)" "follow_ok []"
  by (simp_all add: follow_ok_def is_digit_def)

lemma parse_elems_join:
  assumes IH: "\<And>v n rest. v \<in> set vs \<Longrightarrow> need v \<le> n \<Longrightarrow> follow_ok rest
                 \<Longrightarrow> parse_value n (JSON_stringify v @ rest) = Some (v, rest)"
    and "vs \<noteq> []" and "sum_list (map (\<lambda>v. Suc (need v)) vs) \<le> n"
  shows "parse_elems n (join_with '','' (map JSON_stringify vs) @ CHR '']'' # rest) = Some (vs, rest)"
  using assms
proof (induction vs arbitrary: n)
  case Nil
  then show ?case by simp
next
  case (Cons v vs)
  from Cons.prems(3) obtain m where n: "n = Suc m" and m: "need v + sum_list (map (\<lambda>v. Suc (need v)) vs) \<le> m"
    by (cases n) auto
  show ?case
  proof (cases vs)
    case Nil
    have "parse_value m (JSON_stringify v @ CHR '']'' # rest) = Some (v, CHR '']'' # rest)"
      using m by (intro Cons.prems(1)) simp_all
    then show ?thesis using Nil n by (simp add: skip_ws_Cons is_ws_def)
  next
    case (Cons w ws)
    let ?tail = "join_with '','' (map JSON_stringify vs) @ CHR '']'' # rest"
    have 1: "parse_value m (JSON_stringify v @ CHR '','' # ?tail) = Some (v, CHR '','' # ?tail)"
      using m by (intro Cons.prems(1)) simp_all
    have 2: "parse_elems m ?tail = Some (vs, rest)"
      using m Cons.prems(1) Cons by (intro Cons.IH) simp_all
    show ?thesis using Cons n 1 2 by (simp add: skip_ws_Cons is_ws_def)
  qed
qed

lemma parse_members_join:
  assumes IH: "\<And>k v n rest. (k, v) \<in> set ms \<Longrightarrow> need v \<le> n \<Longrightarrow> follow_ok rest
                 \<Longrightarrow> parse_value n (JSON_stringify v @ rest) = Some (v, rest)"
    and "ms \<noteq> []" and "sum_list (map (\<lambda>m. Suc (need (snd m))) ms) \<le> n"
  shows "parse_members n (join_with '','' (map (\<lambda>m. quote (fst m) @ '':'' @ JSON_stringify (snd m)) ms)
            @ CHR ''}'' # rest) = Some (ms, rest)"
  using assms
proof (induction ms arbitrary: n)
  case Nil
  then show ?case by simp
next
  case (Cons kv ms)
  obtain k v where kv: "kv = (k, v)" by (cases kv)
  from Cons.prems(3) kv obtain m where n: "n = Suc m"
    and m: "need v + sum_list (map (\<lambda>m. Suc (need (snd m))) ms) \<le> m"
    by (cases n) auto
  have q: "\<And>tail. skip_ws (quote k @ tail) = CHR 0x22 # tl (quote k) @ tail"
    by (simp add: quote_def skip_ws_Cons is_ws_def)
  have IH': "parse_value n' (JSON_stringify v' @ r') = Some (v', r')"
    if "(k', v') \<in> set ms" "need v' \<le> n'" "follow_ok r'" for k' v' n' r'
    using that by (intro Cons.prems(1) [of k']) simp_all
  have step: "parse_members m (join_with '','' (map (\<lambda>m. quote (fst m) @ '':'' @ JSON_stringify (snd m)) ms)
                   @ CHR ''}'' # rest) = Some (ms, rest)" if "ms \<noteq> []"
    using that m IH' by (intro Cons.IH) simp_all
  show ?case
  proof (cases ms)
    case Nil
    have "parse_value m (JSON_stringify v @ CHR ''}'' # rest) = Some (v, CHR ''}'' # rest)"
      using m kv by (intro Cons.prems(1) [of k]) simp_all
    then show ?thesis using Nil n kv
      by (simp add: q parse_chars_quote skip_ws_Cons is_ws_def)
  next
    case (Cons w ws)
    let ?tail = "join_with '','' (map (\<lambda>m. quote (fst m) @ '':'' @ JSON_stringify (snd m)) ms)
                   @ CHR ''}'' # rest"
    have 1: "parse_value m (JSON_stringify v @ CHR '','' # ?tail) = Some (v, CHR '','' # ?tail)"
      using m kv by (intro Cons.prems(1) [of k]) simp_all
    have 2: "parse_members m ?tail = Some (ms, rest)"
      using step Cons by simp
    show ?thesis using Cons n kv 1 2
      by (simp add: q parse_chars_quote skip_ws_Cons is_ws_def)
  qed
qed

lemma parse_value_stringify:
  "serializable v \<Longrightarrow> need v \<le> n \<Longrightarrow> follow_ok rest
     \<Longrightarrow> parse_value n (JSON_stringify v @ rest) = Some (v, rest)"
proof (induction v arbitrary: n rest)
  case JNull
  then obtain m where "n = Suc m" by (cases n) auto
  then show ?case by (simp add: skip_ws_Cons is_ws_def parse_literal_def)
next
  case (JBool b)
  then obtain m where "n = Suc m" by (cases n) auto
  then show ?case by (simp add: skip_ws_Cons is_ws_def parse_literal_def)
next
  case (JNum x)
  then obtain m where n: "n = Suc m" by (cases n) auto
  from JNum.prems(1) obtain q where x: "x = Fin q" and q: "serializable_number q"
    by (cases x) simp_all
  obtain c cs where c: "show_number q = c # cs" "is_digit c \<or> c = CHR ''-''"
    using show_number_first by blast
  have "parse_value (Suc m) (show_number q @ rest) = parse_number (show_number q @ rest)"
    using parse_value_number [OF c(2), of m "cs @ rest"] c(1) by simp
  then show ?case using n x parse_number_show_number [OF q JNum.prems(3)] by simp
next
  case (JStr s)
  then obtain m where n: "n = Suc m" by (cases n) auto
  have "skip_ws (quote s @ rest) = CHR 0x22 # tl (quote s) @ rest"
    by (simp add: quote_def skip_ws_Cons is_ws_def)
  then show ?case using n by (simp add: parse_chars_quote)
next
  case (JArr vs)
  from JArr.prems(2) obtain m where n: "n = Suc m"
    and m: "sum_list (map (\<lambda>v. Suc (need v)) vs) \<le> m"
    by (cases n) auto
  show ?case
  proof (cases vs)
    case Nil
    then show ?thesis using n by (simp add: skip_ws_Cons is_ws_def)
  next
    case (Cons w ws)
    let ?body = "join_with '','' (map JSON_stringify vs) @ CHR '']'' # rest"
    obtain c cs where c: "JSON_stringify w = c # cs" "first_ok c"
      using stringify_first by blast
    have "\<exists>t. ?body = c # t" using Cons c(1) by (cases ws) simp_all
    then obtain t where t: "?body = c # t" by blast
    have sk: "skip_ws ?body = c # t" and cn: "c \<noteq> CHR '']''"
      using t first_ok_facts [OF c(2)] by (simp_all add: skip_ws_Cons)
    have IH: "\<And>v n rest. v \<in> set vs \<Longrightarrow> need v \<le> n \<Longrightarrow> follow_ok rest
                 \<Longrightarrow> parse_value n (JSON_stringify v @ rest) = Some (v, rest)"
      using JArr.IH JArr.prems(1) by (simp add: list_all_iff)
    have "parse_elems m ?body = Some (vs, rest)"
      using Cons m by (intro parse_elems_join IH) simp_all
    then show ?thesis using n cn by (simp add: skip_ws_Cons is_ws_def sk)
  qed
next
  case (JObj ms)
  from JObj.prems(2) obtain m where n: "n = Suc m"
    and m: "sum_list (map (\<lambda>m. Suc (need (snd m))) ms) \<le> m"
    by (cases n) auto
  show ?case
  proof (cases ms)
    case Nil
    then show ?thesis using n by (simp add: skip_ws_Cons is_ws_def object_of_def)
  next
    case (Cons w ws)
    let ?body = "join_with '','' (map (\<lambda>m. quote (fst m) @ '':'' @ JSON_stringify (snd m)) ms)
                   @ CHR ''}'' # rest"
    have "\<exists>t. ?body = CHR 0x22 # t" using Cons by (cases ws) (simp_all add: quote_def)
    then obtain t where t: "?body = CHR 0x22 # t" by blast
    have sk: "skip_ws ?body = CHR 0x22 # t"
      using t by (simp add: skip_ws_Cons is_ws_def)
    have IH: "\<And>k v n rest. (k, v) \<in> set ms \<Longrightarrow> need v \<le> n \<Longrightarrow> follow_ok rest
                 \<Longrightarrow> parse_value n (JSON_stringify v @ rest) = Some (v, rest)"
      using JObj.IH JObj.prems(1) by (fastforce simp: list_all_iff)
    have "parse_members m ?body = Some (ms, rest)"
      using Cons m by (intro parse_members_join IH) simp_all
    moreover have "object_of ms = JObj ms"
      using JObj.prems(1) by (intro object_of_distinct) simp
    ultimately show ?thesis using n sk by (simp add: skip_ws_Cons is_ws_def)
  qed
qed

lemma length_join_with:
  "sum_list (map (\<lambda>x. Suc (length x)) xs) \<le> Suc (length (join_with [c] xs))"
  by (induction "[c]" xs rule: join_with.induct) simp_all

lemma sum_list_Suc_mono:
  assumes "\<And>x. x \<in> set xs \<Longrightarrow> f x \<le> g x"
  shows "sum_list (map (\<lambda>x. Suc (f x)) xs) \<le> sum_list (map (\<lambda>x. Suc (g x)) xs)"
  using assms by (induction xs) (simp_all add: add_le_mono)

lemma need_le_length: "need v \<le> length (JSON_stringify v)"
proof (induction v)
  case (JNum x)
  obtain c cs where "JSON_stringify (JNum x) = c # cs" using stringify_first by blast
  then show ?case by simp
next
  case (JArr vs)
  have "sum_list (map (\<lambda>v. Suc (need v)) vs) \<le> sum_list (map (\<lambda>v. Suc (length (JSON_stringify v))) vs)"
    using JArr.IH by (intro sum_list_Suc_mono)
  also have "\<dots> = sum_list (map (\<lambda>x. Suc (length x)) (map JSON_stringify vs))"
    by (simp add: comp_def)
  also have "\<dots> \<le> Suc (length (join_with '','' (map JSON_stringify vs)))"
    by (rule length_join_with)
  finally show ?case by simp
next
  case (JObj ms)
  let ?f = "\<lambda>m. quote (fst m) @ '':'' @ JSON_stringify (snd m)"
  have "sum_list (map (\<lambda>m. Suc (need (snd m))) ms) \<le> sum_list (map (\<lambda>m. Suc (length (?f m))) ms)"
  proof (intro sum_list_Suc_mono)
    fix m assume "m \<in> set ms"
    moreover have "snd m \<in> Basic_BNFs.snds m"
      by (cases m) simp
    ultimately have "need (snd m) \<le> length (JSON_stringify (snd m))"
      by (rule JObj.IH)
    then show "need (snd m) \<le> length (?f m)" by simp
  qed
  also have "\<dots> = sum_list (map (\<lambda>x. Suc (length x)) (map ?f ms))"
    by (simp add: comp_def)
  also have "\<dots> \<le> Suc (length (join_with '','' (map ?f ms)))"
    by (rule length_join_with)
  finally show ?case by simp
qed (simp_all add: quote_def)

lemma JSON_parse_stringify: "serializable v \<Longrightarrow> JSON_parse (JSON_stringify v) = Inr v"
proof -
  assume "serializable v"
  then have "parse_value (Suc (length (JSON_stringify v))) (JSON_stringify v @ []) = Some (v, [])"
    using need_le_length [of v] by (intro parse_value_stringify) simp_all
  then show ?thesis by (simp add: JSON_parse_def skip_ws_def)
qed

lemma JSON_stringify_nonempty: "JSON_stringify v \<noteq> []"
  using stringify_first [of v] by auto



subsection \<open>Whole numbers are serializable\<close>

lemma round_half_even_cases:
  "round_half_even t = \<lfloor>t\<rfloor> \<or> round_half_even t = \<lfloor>t\<rfloor> + 1"
  by (simp add: round_half_even_def Let_def)

lemma nearest_decimal_reads_back:
  assumes "nearest_decimal q k = Some (s, e)"
  shows "reads_back q s e \<and> 0 \<le> s"
proof -
  have "0 \<le> \<bar>q\<bar> / pow10 (decimal_exponent \<bar>q\<bar> - k)"
    by (simp add: pow10_def)
  then have "0 \<le> \<lfloor>\<bar>q\<bar> / pow10 (decimal_exponent \<bar>q\<bar> - k)\<rfloor>"
    by simp
  then show ?thesis
    using assms round_half_even_cases [of "\<bar>q\<bar> / pow10 (decimal_exponent \<bar>q\<bar> - k)"]
    by (auto simp: nearest_decimal_def Let_def split: if_splits)
qed

lemma shortest_from_reads_back:
  assumes "k \<le> k0" and "k0 < 17" and "nearest_decimal q k0 \<noteq> None"
  shows "reads_back q (fst (shortest_from q k)) (snd (shortest_from q k))
    \<and> 0 \<le> fst (shortest_from q k)"
  using assms
proof (induction q k rule: shortest_from.induct)
  case (1 q k)
  have k: "\<not> 17 \<le> k" using 1(2,3) by simp
  show ?case
  proof (cases "nearest_decimal q k")
    case None
    then have "k \<noteq> k0" using 1(4) by auto
    then have "k + 1 \<le> k0" using 1(2) by simp
    have eq: "shortest_from q k = shortest_from q (k + 1)"
      using k None by (subst shortest_from.simps) simp
    from 1(1) [OF k None \<open>k + 1 \<le> k0\<close> 1(3,4)] show ?thesis
      unfolding eq .
  next
    case (Some d)
    obtain s e where d: "d = (s, e)" by (cases d)
    have eq: "shortest_from q k = (s, e)"
      using k Some d by (subst shortest_from.simps) simp
    show ?thesis
      using Some d nearest_decimal_reads_back [of q k s e] by (simp add: eq)
  qed
qed

lemma strip_zeros_value:
  "of_int (fst (strip_zeros s e)) * pow10 (snd (strip_zeros s e)) = of_int s * pow10 e"
proof (induction s e rule: strip_zeros.induct)
  case (1 s e)
  show ?case
  proof (cases "s \<noteq> 0 \<and> s mod 10 = 0")
    case True
    then have s: "s = 10 * (s div 10)" by auto
    have p: "pow10 (e + 1) = 10 * pow10 e"
      by (simp add: pow10_def power_int_add)
    have "of_int (s div 10) * pow10 (e + 1) = (of_int s :: rat) * pow10 e"
      by (subst (2) s) (simp add: p)
    then show ?thesis using True 1 by (subst (1 2) strip_zeros.simps) simp
  next
    case False
    then show ?thesis by (subst (1 2) strip_zeros.simps) auto
  qed
qed

lemma strip_zeros_nonneg: "0 \<le> s \<Longrightarrow> 0 \<le> fst (strip_zeros s e)"
proof (induction s e rule: strip_zeros.induct)
  case (1 s e)
  show ?case
  proof (cases "s \<noteq> 0 \<and> s mod 10 = 0")
    case True
    have "0 \<le> s div 10" using 1(2) by simp
    from 1(1) [OF True this] show ?thesis using True by (subst strip_zeros.simps) simp
  next
    case False
    then show ?thesis using 1(2) by (subst strip_zeros.simps) auto
  qed
qed

lemma length_show_digits:
  "n < 10 ^ j \<Longrightarrow> 0 < j \<Longrightarrow> length (show_digits n) \<le> j"
proof (induction n arbitrary: j rule: show_digits.induct)
  case (1 n)
  show ?case
  proof (cases "n < 10")
    case True
    then show ?thesis using 1(3) by (subst show_digits.simps) simp
  next
    case False
    then have "1 < j" using 1(2,3) by (cases "j = 1") auto
    then obtain i where j: "j = Suc i" "0 < i" by (cases j) auto
    have "n div 10 < 10 ^ i" using 1(2) j by simp
    from 1(1) [OF False this j(2)] show ?thesis
      using False j by (subst show_digits.simps) simp
  qed
qed

lemma to_double_nonzero: "x \<noteq> 0 \<Longrightarrow> to_double 0 \<noteq> Fin x"
  by (simp add: to_double_def)

lemma whole_serializable_number:
  assumes "\<bar>n\<bar> < 2 ^ 53"
  shows "serializable_number (of_int n)"
proof (cases "n = 0")
  case True
  then show ?thesis by (simp add: serializable_number_def)
next
  case False
  let ?q = "of_int n :: rat"
  define k0 where "k0 = int (length (show_digits \<bar>n\<bar>))"
  have "\<bar>n\<bar> < 10 ^ 16" using assms by simp
  then have "length (show_digits \<bar>n\<bar>) \<le> 16" by (intro length_show_digits) simp_all
  then have k0: "1 \<le> k0" "k0 < 17"
    using show_digits_nonempty [of "\<bar>n\<bar>"]
    by (simp_all add: k0_def Suc_le_eq)
  have ge: "1 \<le> \<bar>?q\<bar>" using False by (simp flip: of_int_abs add: of_int_le_iff [symmetric] del: of_int_abs)
  have de: "decimal_exponent \<bar>?q\<bar> = k0"
    using ge by (simp add: decimal_exponent_def k0_def flip: of_int_abs)
  have sg: "of_int (signum ?q * \<bar>n\<bar>) = ?q"
    by (simp add: signum_def)
  have "reads_back ?q \<bar>n\<bar> 0"
    unfolding reads_back_def using to_double_of_int [OF assms] sg
    by (simp add: pow10_def)
  moreover have "\<lfloor>\<bar>?q\<bar> / pow10 0\<rfloor> = \<bar>n\<bar>"
    by (simp add: pow10_def flip: of_int_abs)
  ultimately have "nearest_decimal ?q k0 \<noteq> None"
    by (simp add: nearest_decimal_def Let_def de)
  from shortest_from_reads_back [OF k0(1) k0(2) this]
  obtain s e where se: "shortest_from ?q 1 = (s, e)" and rb: "reads_back ?q s e" and s0: "0 \<le> s"
    by (cases "shortest_from ?q 1") auto
  obtain s' e' where st: "strip_zeros s e = (s', e')" by (cases "strip_zeros s e")
  have v: "of_int s' * pow10 e' = (of_int s :: rat) * pow10 e"
    using strip_zeros_value [of s e] st by simp
  have "of_int (signum ?q * s') * pow10 e' = of_int (signum ?q) * (of_int s' * pow10 e')"
    by simp
  also have "\<dots> = of_int (signum ?q) * (of_int s * pow10 e)"
    by (simp only: v)
  also have "\<dots> = of_int (signum ?q * s) * pow10 e"
    by simp
  finally have rb': "reads_back ?q s' e'"
    using rb by (simp only: reads_back_def)
  have "0 \<le> s'" using strip_zeros_nonneg [OF s0, of e] st by simp
  moreover have "s' \<noteq> 0"
    using rb' False to_double_nonzero [of ?q] by (auto simp: reads_back_def)
  ultimately have "0 < s'" by simp
  then show ?thesis
    using rb' se st by (simp add: serializable_number_def shortest_decimal_def)
qed

lemma whole_serializable: "\<bar>n\<bar> < 2 ^ 53 \<Longrightarrow> serializable (JNum (Fin (of_int n)))"
  by (simp add: whole_serializable_number)

subsection \<open>The paths of \<open>getValueOrRetrieve\<close>\<close>

lemmas outcome_defs = result_of_def client_after_def world_after_def

lemma slots_issue [simp]: "slots (issue c cmd) = slots c"
  by (simp add: issue_def)

lemma issued_issue [simp]: "issued (issue c cmd) = issued c @ [cmd]"
  by (simp add: issue_def)

lemma rejects_issue [simp]: "rejects (issue c cmd) = rejects c"
  by (simp add: issue_def)

lemma connected_issue [simp]: "connected (issue c cmd) = connected c"
  by (simp add: issue_def)

lemma redis_get_client:
  "snd (redis_get c key) = issue c (Get key)"
  by (simp add: redis_get_def)

lemma redis_get_ok:
  "\<not> rejects c (Get key) \<Longrightarrow> redis_get c key = (Inr (map_option fst (slots c key)), issue c (Get key))"
  by (simp add: redis_get_def)

lemma redis_set_plain:
  "\<not> rejects c (Set key v []) \<Longrightarrow>
     redis_set c key v [] = (Inr (Some ''OK''), write_slot (issue c (Set key v [])) key v None)"
  by (simp add: redis_set_def Let_def)

lemma redis_set_EX:
  "\<not> rejects c (Set key v [ArgS ''EX'', ArgN t]) \<Longrightarrow>
     redis_set c key v [ArgS ''EX'', ArgN t] =
       (Inr (Some ''OK''), write_slot (issue c (Set key v [ArgS ''EX'', ArgN t])) key v (Some t))"
  by (simp add: redis_set_def Let_def)

lemma redis_set_rejected:
  "rejects c (Set key v args) \<Longrightarrow>
     redis_set c key v args = (Inl RedisError, issue c (Set key v args))"
  by (simp add: redis_set_def Let_def)

lemma write_slot_fields [simp]:
  "slots (write_slot c key v ttl) = (slots c)(key \<mapsto> (v, ttl))"
  "issued (write_slot c key v ttl) = issued c"
  "rejects (write_slot c key v ttl) = rejects c"
  "connected (write_slot c key v ttl) = connected c"
  by (simp_all add: write_slot_def)

lemma getValueOrRetrieve_bypass:
  assumes "opt_field bypassCache options = Some True"
  shows "getValueOrRetrieve c key retrieve options w =
    retrieve_and_store c (computeCacheKey (getValueOrRetrieveKeyPrefix c) key)
      (expirationTime (getValueOrRetrieveCacheDurationInMs c) options) retrieve options w"
  using assms by (simp add: getValueOrRetrieve_def Let_def)

lemma getValueOrRetrieve_miss:
  assumes "opt_field bypassCache options \<noteq> Some True"
    and "\<not> rejects (client c) (Get (computeCacheKey (getValueOrRetrieveKeyPrefix c) key))"
    and "\<not> cache_hit (map_option fst (slots (client c) (computeCacheKey (getValueOrRetrieveKeyPrefix c) key))) options"
  shows "getValueOrRetrieve c key retrieve options w =
    retrieve_and_store
      (c\<lparr>client := issue (client c) (Get (computeCacheKey (getValueOrRetrieveKeyPrefix c) key))\<rparr>)
      (computeCacheKey (getValueOrRetrieveKeyPrefix c) key)
      (expirationTime (getValueOrRetrieveCacheDurationInMs c) options) retrieve options w"
  using assms by (simp add: getValueOrRetrieve_def Let_def redis_get_ok)

lemma getValueOrRetrieve_hit:
  assumes "opt_field bypassCache options \<noteq> Some True"
    and "\<not> rejects (client c) (Get (computeCacheKey (getValueOrRetrieveKeyPrefix c) key))"
    and "slots (client c) (computeCacheKey (getValueOrRetrieveKeyPrefix c) key) = Some (s, ttl)"
    and "cache_hit (Some s) options"
  shows "getValueOrRetrieve c key retrieve options w =
    (case renew (c\<lparr>client := issue (client c) (Get (computeCacheKey (getValueOrRetrieveKeyPrefix c) key))\<rparr>)
                (computeCacheKey (getValueOrRetrieveKeyPrefix c) key)
                (expirationTime (getValueOrRetrieveCacheDurationInMs c) options) options of
       Inl e \<Rightarrow>
         (Inl e, c\<lparr>client := issue (client c) (Get (computeCacheKey (getValueOrRetrieveKeyPrefix c) key))\<rparr>, w)
     | Inr c' \<Rightarrow>
         if s = NULL_SYMBOL then (Inr JNull, c', w)
         else (case JSON_parse s of Inl e \<Rightarrow> (Inl e, c', w) | Inr parsed \<Rightarrow> (Inr parsed, c', w)))"
  using assms by (simp add: getValueOrRetrieve_def Let_def redis_get_ok split: sum.split)

lemma renew_returns:
  assumes "opt_field renewCacheDurationOnAccess options = Some True \<longrightarrow> expire_accepts t"
  shows "\<exists>c'. renew c k t options = Inr c'"
  using assms by (auto simp: renew_def redis_expire_def Let_def split: sum.splits prod.splits)

lemma renew_throws:
  assumes "opt_field renewCacheDurationOnAccess options = Some True" and "\<not> expire_accepts t"
  shows "renew c k t options = Inl ArgumentError"
  using assms by (simp add: renew_def redis_expire_def)

lemma reaches_retrieval_cases:
  assumes "reaches_retrieval c key options"
  obtains (bypass) "opt_field bypassCache options = Some True"
  | (miss) "opt_field bypassCache options \<noteq> Some True"
      "\<not> rejects (client c) (Get (computeCacheKey (getValueOrRetrieveKeyPrefix c) key))"
      "\<not> cache_hit (map_option fst (slots (client c) (computeCacheKey (getValueOrRetrieveKeyPrefix c) key))) options"
  using assms
  by (auto simp: reaches_retrieval_def redis_get_def split: if_splits)

lemma reaches_retrieval_store:
  assumes "reaches_retrieval c key options"
  shows "\<exists>c1. getValueOrRetrieve c key retrieve options w =
           retrieve_and_store c1 (computeCacheKey (getValueOrRetrieveKeyPrefix c) key)
             (expirationTime (getValueOrRetrieveCacheDurationInMs c) options) retrieve options w
         \<and> slots (client c1) = slots (client c) \<and> rejects (client c1) = rejects (client c)
         \<and> issued (client c1) = issued (client c) @
              (if opt_field bypassCache options = Some True then []
               else [Get (computeCacheKey (getValueOrRetrieveKeyPrefix c) key)])"
  using assms
proof (cases rule: reaches_retrieval_cases)
  case bypass
  show ?thesis
    using getValueOrRetrieve_bypass [OF bypass] bypass by (intro exI [of _ c]) simp
next
  case miss
  show ?thesis
    using getValueOrRetrieve_miss [OF miss] miss(1)
    by (intro exI [of _ "c\<lparr>client := issue (client c) (Get (computeCacheKey (getValueOrRetrieveKeyPrefix c) key))\<rparr>"]) simp
qed

lemma retrieve_and_store_null_saved:
  assumes "fst (retrieve w) = Inr JNull" and "opt_field saveNullResponse options \<noteq> Some False"
  shows "retrieve_and_store c k t retrieve options w =
    (case redis_set (client c) k NULL_SYMBOL [] of
       (Inl e, rc) \<Rightarrow> (Inl e, c\<lparr>client := rc\<rparr>, snd (retrieve w))
     | (Inr ok, rc) \<Rightarrow> (Inr JNull, c\<lparr>client := rc\<rparr>, snd (retrieve w)))"
  using assms by (cases "retrieve w") (auto simp: retrieve_and_store_def split: prod.splits sum.splits)

lemma retrieve_and_store_null_dropped:
  assumes "fst (retrieve w) = Inr JNull" and "opt_field saveNullResponse options = Some False"
  shows "retrieve_and_store c k t retrieve options w = (Inr JNull, c, snd (retrieve w))"
  using assms by (cases "retrieve w") (simp add: retrieve_and_store_def)

lemma retrieve_and_store_value:
  assumes "fst (retrieve w) = Inr v" and "v \<noteq> JNull"
  shows "retrieve_and_store c k t retrieve options w =
    (case redis_set (client c) k (JSON_stringify v) [ArgS ''EX'', ArgN t] of
       (Inl e, rc) \<Rightarrow> (Inl e, c\<lparr>client := rc\<rparr>, snd (retrieve w))
     | (Inr ok, rc) \<Rightarrow> (Inr v, c\<lparr>client := rc\<rparr>, snd (retrieve w)))"
  using assms by (cases "retrieve w") (auto simp: retrieve_and_store_def split: prod.splits sum.splits)

lemma retrieve_and_store_world:
  "snd (snd (retrieve_and_store c k t retrieve options w)) = snd (retrieve w)"
  by (cases "retrieve w")
    (auto simp: retrieve_and_store_def split: sum.splits prod.splits)

lemma counted_fst [simp]: "fst (counted retrieve (n, w)) = fst (retrieve w)"
  by (cases "retrieve w") (simp add: counted_def)

lemma counted_snd [simp]: "snd (counted retrieve (n, w)) = (Suc n, snd (retrieve w))"
  by (cases "retrieve w") (simp add: counted_def)

lemma retrieve_and_store_raise:
  assumes "fst (retrieve w) = Inl e"
  shows "retrieve_and_store c k t retrieve options w = (Inl e, c, snd (retrieve w))"
  using assms by (cases "retrieve w") (simp add: retrieve_and_store_def)

lemma demo_client_fields:
  "slots (client demo_client) = Map.empty"
  "rejects (client demo_client) = (\<lambda>cmd. False)"
  "connected (client demo_client) = True"
  "issued (client demo_client) = []"
  "getValueOrRetrieveKeyPrefix demo_client = []"
  "getValueOrRetrieveCacheDurationInMs demo_client = Fin 300000"
  by (simp_all add: demo_client_def five_minutes)

lemma demo_client_with_fields:
  "slots (client (demo_client_with key v)) = [key \<mapsto> (v, None)]"
  "rejects (client (demo_client_with key v)) = (\<lambda>cmd. False)"
  "connected (client (demo_client_with key v)) = True"
  "issued (client (demo_client_with key v)) = []"
  "getValueOrRetrieveKeyPrefix (demo_client_with key v) = []"
  "getValueOrRetrieveCacheDurationInMs (demo_client_with key v) = Fin 300000"
  by (simp_all add: demo_client_with_def demo_client_fields)

lemma expirationTime_default: "expirationTime (Fin 300000) None = Fin 300"
  by (simp add: expirationTime_def opt_field_def seconds_of_five_minutes)

lemma reaches_retrieval_client:
  assumes "reaches_retrieval c key options"
  shows "\<exists>rc. getValueOrRetrieve c key retrieve options w =
           retrieve_and_store (c\<lparr>client := rc\<rparr>) (computeCacheKey (getValueOrRetrieveKeyPrefix c) key)
             (expirationTime (getValueOrRetrieveCacheDurationInMs c) options) retrieve options w
         \<and> slots rc = slots (client c) \<and> rejects rc = rejects (client c)"
  using assms
proof (cases rule: reaches_retrieval_cases)
  case bypass
  show ?thesis
    using getValueOrRetrieve_bypass [OF bypass] by (intro exI [of _ "client c"]) simp
next
  case miss
  show ?thesis
    using getValueOrRetrieve_miss [OF miss]
    by (intro exI [of _ "issue (client c) (Get (computeCacheKey (getValueOrRetrieveKeyPrefix c) key))"]) simp
qed

lemma sentinel_not_hit:
  "opt_field saveNullResponse options = Some False \<Longrightarrow> \<not> cache_hit (Some NULL_SYMBOL) options"
  by (simp add: cache_hit_def)

lemma sentinel_hit:
  "opt_field saveNullResponse options \<noteq> Some False \<Longrightarrow> cache_hit (Some NULL_SYMBOL) options"
  by (simp add: cache_hit_def truthy_string_def NULL_SYMBOL_def)

lemma sentinel_reaches_retrieval:
  assumes "opt_field saveNullResponse options = Some False"
    and "\<not> rejects (client c) (Get (computeCacheKey (getValueOrRetrieveKeyPrefix c) key))"
    and "slots (client c) (computeCacheKey (getValueOrRetrieveKeyPrefix c) key) = Some (NULL_SYMBOL, ttl)"
  shows "reaches_retrieval c key options"
  using assms by (simp add: reaches_retrieval_def redis_get_ok sentinel_not_hit)

lemma reaches_retrieval_invoked:
  assumes "reaches_retrieval c key options"
  shows "world_after (getValueOrRetrieve c key retrieve options w) = snd (retrieve w)"
proof -
  from reaches_retrieval_client [OF assms, of retrieve w] obtain rc where
    "getValueOrRetrieve c key retrieve options w =
       retrieve_and_store (c\<lparr>client := rc\<rparr>) (computeCacheKey (getValueOrRetrieveKeyPrefix c) key)
         (expirationTime (getValueOrRetrieveCacheDurationInMs c) options) retrieve options w"
    by blast
  then show ?thesis by (simp add: world_after_def retrieve_and_store_world)
qed

lemma null_dropped_call:
  assumes "reaches_retrieval c key options"
    and "fst (retrieve w) = Inr JNull"
    and "opt_field saveNullResponse options = Some False"
  shows "\<exists>rc. getValueOrRetrieve c key retrieve options w = (Inr JNull, c\<lparr>client := rc\<rparr>, snd (retrieve w))
           \<and> slots rc = slots (client c) \<and> rejects rc = rejects (client c)"
proof -
  from reaches_retrieval_client [OF assms(1), of retrieve w] obtain rc where
    g: "getValueOrRetrieve c key retrieve options w =
       retrieve_and_store (c\<lparr>client := rc\<rparr>) (computeCacheKey (getValueOrRetrieveKeyPrefix c) key)
         (expirationTime (getValueOrRetrieveCacheDurationInMs c) options) retrieve options w"
    and s: "slots rc = slots (client c)" "rejects rc = rejects (client c)"
    by blast
  show ?thesis
    using s
    by (intro exI [of _ rc])
      (simp add: g retrieve_and_store_null_dropped [where retrieve = retrieve, OF assms(2,3)])
qed

lemma null_dropping_sequence:
  assumes "\<forall>call \<in> set calls. opt_field saveNullResponse (snd call) = Some False
              \<and> (\<forall>x. fst (fst call x) = Inr JNull)"
    and "\<not> rejects (client c) (Get (computeCacheKey (getValueOrRetrieveKeyPrefix c) key))"
    and "slots (client c) (computeCacheKey (getValueOrRetrieveKeyPrefix c) key) = Some (NULL_SYMBOL, ttl)"
  shows "\<exists>rc. fst (call_sequence c key (map (\<lambda>call. (counted (fst call), snd call)) calls) (n, w))
                 = c\<lparr>client := rc\<rparr>
           \<and> slots rc = slots (client c) \<and> rejects rc = rejects (client c)
           \<and> fst (snd (call_sequence c key (map (\<lambda>call. (counted (fst call), snd call)) calls) (n, w)))
                 = n + length calls"
  using assms
proof (induction calls arbitrary: c n w)
  case Nil
  show ?case by (intro exI [of _ "client c"]) simp
next
  case (Cons call calls)
  let ?k = "computeCacheKey (getValueOrRetrieveKeyPrefix c) key"
  have snr: "opt_field saveNullResponse (snd call) = Some False"
    and null: "fst (counted (fst call) (n, w)) = Inr JNull"
    using Cons.prems(1) by simp_all
  have reach: "reaches_retrieval c key (snd call)"
    using snr Cons.prems(2,3) by (rule sentinel_reaches_retrieval)
  from null_dropped_call [where retrieve = "counted (fst call)" and w = "(n, w)", OF reach null snr]
  obtain rc where
    step: "getValueOrRetrieve c key (counted (fst call)) (snd call) (n, w) =
             (Inr JNull, c\<lparr>client := rc\<rparr>, snd (counted (fst call) (n, w)))"
    and s: "slots rc = slots (client c)" "rejects rc = rejects (client c)"
    by blast
  let ?c1 = "c\<lparr>client := rc\<rparr>"
  have "\<exists>rc'. fst (call_sequence ?c1 key (map (\<lambda>call. (counted (fst call), snd call)) calls)
                   (Suc n, snd (fst call w))) = ?c1\<lparr>client := rc'\<rparr>
           \<and> slots rc' = slots (client ?c1) \<and> rejects rc' = rejects (client ?c1)
           \<and> fst (snd (call_sequence ?c1 key (map (\<lambda>call. (counted (fst call), snd call)) calls)
                   (Suc n, snd (fst call w)))) = Suc n + length calls"
    using Cons.prems s by (intro Cons.IH) simp_all
  then obtain rc' where
    rest: "fst (call_sequence ?c1 key (map (\<lambda>call. (counted (fst call), snd call)) calls)
                   (Suc n, snd (fst call w))) = ?c1\<lparr>client := rc'\<rparr>"
      "slots rc' = slots (client ?c1)" "rejects rc' = rejects (client ?c1)"
      "fst (snd (call_sequence ?c1 key (map (\<lambda>call. (counted (fst call), snd call)) calls)
                   (Suc n, snd (fst call w)))) = Suc n + length calls"
    by blast
  show ?case
    using rest s by (intro exI [of _ rc']) (simp add: step)
qed

lemma call_sequence_append:
  "call_sequence c key (xs @ ys) w =
     call_sequence (fst (call_sequence c key xs w)) key ys (snd (call_sequence c key xs w))"
  by (induction xs arbitrary: c w) (simp_all split: prod.splits)

lemma stringify_not_marker: "JSON_stringify v \<noteq> NULL_SYMBOL"
proof -
  obtain c cs where c: "JSON_stringify v = c # cs" "first_ok c"
    using stringify_first by blast
  have "c \<noteq> CHR ''%''" using c(2) by (auto simp: first_ok_def is_digit_def)
  then show ?thesis using c(1) by (simp add: NULL_SYMBOL_def)
qed

lemma stringify_hit_any: "cache_hit (Some (JSON_stringify v)) options"
  by (simp add: cache_hit_def truthy_string_def JSON_stringify_nonempty stringify_not_marker)

lemma redis_set_result_plain:
  "fst (redis_set c k v []) = (if rejects c (Set k v []) then Inl RedisError else Inr (Some ''OK''))"
  by (simp add: redis_set_def Let_def)

lemma redis_set_result_EX:
  "fst (redis_set c k v [ArgS ''EX'', ArgN t]) =
     (if rejects c (Set k v [ArgS ''EX'', ArgN t]) then Inl RedisError else Inr (Some ''OK''))"
  by (simp add: redis_set_def Let_def)

lemma retrieve_and_store_result:
  assumes "rejects (client c1) = rejects (client c2)"
  shows "fst (retrieve_and_store c1 k t retrieve options w) =
         fst (retrieve_and_store c2 k t retrieve options w)"
proof -
  have p: "fst (redis_set (client c1) k v []) = fst (redis_set (client c2) k v [])" for v
    using assms by (simp add: redis_set_result_plain)
  have e: "fst (redis_set (client c1) k v [ArgS ''EX'', ArgN t]) =
           fst (redis_set (client c2) k v [ArgS ''EX'', ArgN t])" for v
    using assms by (simp add: redis_set_result_EX)
  show ?thesis
  proof (cases "retrieve w")
    case (Pair res w')
    show ?thesis
    proof (cases res)
      case (Inl err)
      then show ?thesis using Pair by (simp add: retrieve_and_store_def)
    next
      case (Inr v)
      show ?thesis
      proof (cases "v = JNull")
        case True
        then show ?thesis using Pair Inr p [of NULL_SYMBOL]
          by (cases "redis_set (client c1) k NULL_SYMBOL []"; cases "redis_set (client c2) k NULL_SYMBOL []")
            (auto simp: retrieve_and_store_def split: sum.splits)
      next
        case False
        then show ?thesis using Pair Inr e [of "JSON_stringify v"]
          by (cases "redis_set (client c1) k (JSON_stringify v) [ArgS ''EX'', ArgN t]";
              cases "redis_set (client c2) k (JSON_stringify v) [ArgS ''EX'', ArgN t]")
            (auto simp: retrieve_and_store_def split: sum.splits)
      qed
    qed
  qed
qed

lemma empty_not_hit: "\<not> cache_hit (Some []) options"
  by (simp add: cache_hit_def truthy_string_def)

lemma absent_not_hit: "\<not> cache_hit None options"
  by (simp add: cache_hit_def truthy_string_def)

lemma marker_written:
  assumes "reaches_retrieval c key options"
    and "fst (retrieve w) = Inr JNull" and "opt_field saveNullResponse options \<noteq> Some False"
  shows "last (issued (client_after (getValueOrRetrieve c key retrieve options w))) =
           Set (computeCacheKey (getValueOrRetrieveKeyPrefix c) key) NULL_SYMBOL []
    \<and> (\<not> rejects (client c) (Set (computeCacheKey (getValueOrRetrieveKeyPrefix c) key) NULL_SYMBOL []) \<longrightarrow>
          result_of (getValueOrRetrieve c key retrieve options w) = Inr JNull
        \<and> slots (client_after (getValueOrRetrieve c key retrieve options w))
             (computeCacheKey (getValueOrRetrieveKeyPrefix c) key) = Some (NULL_SYMBOL, None))"
proof -
  let ?k = "computeCacheKey (getValueOrRetrieveKeyPrefix c) key"
  let ?t = "expirationTime (getValueOrRetrieveCacheDurationInMs c) options"
  from reaches_retrieval_store [OF assms(1), of retrieve w]
  obtain c1 where c1: "getValueOrRetrieve c key retrieve options w =
        retrieve_and_store c1 ?k ?t retrieve options w"
    and r: "rejects (client c1) = rejects (client c)"
    by blast
  note step = retrieve_and_store_null_saved [where retrieve = retrieve, OF assms(2,3)]
  show ?thesis
  proof (cases "rejects (client c) (Set ?k NULL_SYMBOL [])")
    case True
    then show ?thesis
      using r by (simp add: c1 step redis_set_rejected outcome_defs)
  next
    case False
    then show ?thesis
      using r by (simp add: c1 step redis_set_plain outcome_defs)
  qed
qed

lemma value_written:
  assumes "reaches_retrieval c key options"
    and "fst (retrieve w) = Inr v" and "v \<noteq> JNull"
  shows "last (issued (client_after (getValueOrRetrieve c key retrieve options w))) =
           Set (computeCacheKey (getValueOrRetrieveKeyPrefix c) key) (JSON_stringify v)
             [ArgS ''EX'', ArgN (expirationTime (getValueOrRetrieveCacheDurationInMs c) options)]
    \<and> (\<not> rejects (client c) (Set (computeCacheKey (getValueOrRetrieveKeyPrefix c) key) (JSON_stringify v)
            [ArgS ''EX'', ArgN (expirationTime (getValueOrRetrieveCacheDurationInMs c) options)]) \<longrightarrow>
          result_of (getValueOrRetrieve c key retrieve options w) = Inr v
        \<and> slots (client_after (getValueOrRetrieve c key retrieve options w))
             (computeCacheKey (getValueOrRetrieveKeyPrefix c) key) =
           Some (JSON_stringify v, Some (expirationTime (getValueOrRetrieveCacheDurationInMs c) options)))"
proof -
  let ?k = "computeCacheKey (getValueOrRetrieveKeyPrefix c) key"
  let ?t = "expirationTime (getValueOrRetrieveCacheDurationInMs c) options"
  from reaches_retrieval_store [OF assms(1), of retrieve w]
  obtain c1 where c1: "getValueOrRetrieve c key retrieve options w =
        retrieve_and_store c1 ?k ?t retrieve options w"
    and r: "rejects (client c1) = rejects (client c)"
    by blast
  note step = retrieve_and_store_value [where retrieve = retrieve, OF assms(2,3)]
  show ?thesis
  proof (cases "rejects (client c) (Set ?k (JSON_stringify v) [ArgS ''EX'', ArgN ?t])")
    case True
    then show ?thesis
      using r by (simp add: c1 step redis_set_rejected outcome_defs)
  next
    case False
    then show ?thesis
      using r by (simp add: c1 step redis_set_EX outcome_defs)
  qed
qed

lemma hit_branch_raises:
  assumes "opt_field bypassCache options \<noteq> Some True"
    and "\<not> rejects (client c) (Get (computeCacheKey (getValueOrRetrieveKeyPrefix c) key))"
    and "slots (client c) (computeCacheKey (getValueOrRetrieveKeyPrefix c) key) = Some (s, ttl)"
    and "s \<noteq> []" and "s \<noteq> NULL_SYMBOL" and "JSON_parse s = Inl e"
    and "renewal_accepted c options"
  shows "result_of (getValueOrRetrieve c key retrieve options w) = Inl e
    \<and> world_after (getValueOrRetrieve c key retrieve options w) = w"
proof -
  have h: "cache_hit (Some s) options"
    using assms(4,5) by (simp add: cache_hit_def truthy_string_def)
  from renew_returns [OF assms(7) [unfolded renewal_accepted_def]]
  obtain c' where c': "renew (c\<lparr>client := issue (client c) (Get (computeCacheKey (getValueOrRetrieveKeyPrefix c) key))\<rparr>)
      (computeCacheKey (getValueOrRetrieveKeyPrefix c) key)
      (expirationTime (getValueOrRetrieveCacheDurationInMs c) options) options = Inr c'"
    by blast
  show ?thesis
    using getValueOrRetrieve_hit [OF assms(1,2,3) h, where retrieve = retrieve and w = w] assms(5,6)
    by (simp add: c' outcome_defs)
qed

subsection \<open>The secondary connection of \<open>transaction\<close>\<close>

lemma redis_send_connected [simp]:
  "connected (snd (redis_send c cmd args)) = connected c"
  by (simp add: redis_send_def)

lemma create_connected:
  "create env_url srv rej options = Inr t \<Longrightarrow> connected (client t)"
  by (auto simp: create_def redis_connect_def split: sum.splits prod.splits if_splits)

lemma transaction_never_closes:
  assumes "\<And>t. connected (client (snd (callback t))) = connected (client t)"
    and "snd (transaction env_url this callback) = Some t'"
  shows "connected (client t')"
proof (cases "create env_url (slots (client this)) (rejects (client this))
             (Some \<lparr>opt_url = Some (url this), cacheDurationInMs = None, keyPrefix = None\<rparr>)")
  case (Inl e)
  then show ?thesis using assms(2) by (simp add: transaction_def)
next
  case (Inr tempClient)
  let ?t1 = "tempClient\<lparr>client := snd (redis_send (client tempClient) ''MULTI'' [])\<rparr>"
  have c0: "connected (client tempClient)" using Inr by (rule create_connected)
  have c1: "connected (client ?t1)" using c0 by simp
  obtain res t2 where cb: "callback ?t1 = (res, t2)" by (cases "callback ?t1")
  have c2: "connected (client t2)" using assms(1) [of ?t1] c1 cb by simp
  show ?thesis
  proof (cases res)
    case (Inl e)
    then show ?thesis using assms(2) Inr cb c2 by (auto simp: transaction_def Let_def)
  next
    case (Inr u)
    obtain r rc where ex: "redis_send (client t2) ''EXEC'' [] = (r, rc)"
      by (cases "redis_send (client t2) ''EXEC'' []")
    have c3: "connected rc" using redis_send_connected [of "client t2" "''EXEC''" "[]"] ex c2 by simp
    show ?thesis
      using assms(2) \<open>create _ _ _ _ = Inr tempClient\<close> cb Inr ex c3
      by (cases r) (auto simp: transaction_def Let_def)
  qed
qed

subsection \<open>The paths of \<open>getValue\<close> and \<open>setValue\<close>\<close>




lemma computeCacheKey_loop_concat:
  "computeCacheKey_loop key es = key @ concat (map (\<lambda>e. ''_'' @ e) es)"
  by (induction es arbitrary: key) simp_all

lemma join_with_cons:
  "join_with sep (x # ys) = x @ concat (map (\<lambda>e. sep @ e) ys)"
  by (induction ys arbitrary: x) simp_all

subsection \<open>Two calls in sequence\<close>

text \<open>
  Claim C1. The slot of the computed key is absent, the retrieval function of the first
  call returns a serializable value other than \<^verbatim>\<open>null\<close>, neither call bypasses the cache (as with the
  default options, which are the case of no options), the store accepts the read and
  the write, and the second call asks for no renewal that throws (the default options
  ask for none). Then the first call returns the value and invokes its
  retrieval function once; the second call, on the state the first one left, returns the
  same value and invokes no retrieval function: the counter of invocations is 1 after
  either call, and the caller's state is the one the first retrieval left.
\<close>

theorem second_call_served_from_cache:
  assumes "slots (client c) (computeCacheKey (getValueOrRetrieveKeyPrefix c) key) = None"
    and "fst (r1 w) = Inr v" and "v \<noteq> JNull"
    and "opt_field bypassCache o1 \<noteq> Some True" and "opt_field bypassCache o2 \<noteq> Some True"
    and "\<not> rejects (client c) (Get (computeCacheKey (getValueOrRetrieveKeyPrefix c) key))"
    and "\<not> rejects (client c)
          (Set (computeCacheKey (getValueOrRetrieveKeyPrefix c) key) (JSON_stringify v)
             [ArgS ''EX'', ArgN (expirationTime (getValueOrRetrieveCacheDurationInMs c) o1)])"
    and "renewal_accepted c o2" and "serializable v"
  shows "result_of (getValueOrRetrieve c key (counted r1) o1 (0, w)) = Inr v
    \<and> world_after (getValueOrRetrieve c key (counted r1) o1 (0, w)) = (1, snd (r1 w))
    \<and> result_of (getValueOrRetrieve (fst (snd (getValueOrRetrieve c key (counted r1) o1 (0, w))))
          key (counted r2) o2 (world_after (getValueOrRetrieve c key (counted r1) o1 (0, w))))
        = Inr v
    \<and> world_after (getValueOrRetrieve (fst (snd (getValueOrRetrieve c key (counted r1) o1 (0, w))))
          key (counted r2) o2 (world_after (getValueOrRetrieve c key (counted r1) o1 (0, w))))
        = (1, snd (r1 w))"
proof -
  let ?k = "computeCacheKey (getValueOrRetrieveKeyPrefix c) key"
  let ?t = "expirationTime (getValueOrRetrieveCacheDurationInMs c) o1"
  let ?rc = "write_slot (issue (issue (client c) (Get ?k)) (Set ?k (JSON_stringify v) [ArgS ''EX'', ArgN ?t]))
               ?k (JSON_stringify v) (Some ?t)"
  have miss: "\<not> cache_hit (map_option fst (slots (client c) ?k)) o1"
    using assms(1) by (simp add: absent_not_hit)
  have r1: "fst (counted r1 (0, w)) = Inr v" using assms(2) by simp
  have first: "getValueOrRetrieve c key (counted r1) o1 (0, w) =
      (Inr v, c\<lparr>client := ?rc\<rparr>, (Suc 0, snd (r1 w)))"
    using assms(7)
    by (simp add: getValueOrRetrieve_miss [OF assms(4,6) miss]
        retrieve_and_store_value [where retrieve = "counted r1", OF r1 assms(3)] redis_set_EX)
  let ?c1 = "c\<lparr>client := ?rc\<rparr>"
  have g1: "\<not> rejects (client ?c1) (Get (computeCacheKey (getValueOrRetrieveKeyPrefix ?c1) key))"
    using assms(6) by simp
  have s1: "slots (client ?c1) (computeCacheKey (getValueOrRetrieveKeyPrefix ?c1) key)
      = Some (JSON_stringify v, Some ?t)"
    by simp
  from renew_returns [OF assms(8) [unfolded renewal_accepted_def]]
  obtain c' where c': "renew (?c1\<lparr>client := issue (client ?c1) (Get ?k)\<rparr>) ?k
      (expirationTime (getValueOrRetrieveCacheDurationInMs c) o2) o2 = Inr c'"
    by blast
  have second: "\<exists>c2. getValueOrRetrieve ?c1 key (counted r2) o2 (Suc 0, snd (r1 w)) =
      (Inr v, c2, (Suc 0, snd (r1 w)))"
    using getValueOrRetrieve_hit [OF assms(5) g1 s1 stringify_hit_any,
        where retrieve = "counted r2" and w = "(Suc 0, snd (r1 w))"] c'
    by (simp add: stringify_not_marker JSON_parse_stringify [OF assms(9)])
  then obtain c2 where second': "getValueOrRetrieve ?c1 key (counted r2) o2 (Suc 0, snd (r1 w)) =
      (Inr v, c2, (Suc 0, snd (r1 w)))"
    by blast
  show ?thesis
    by (simp add: first second' outcome_defs)
qed

text \<open>
  The theorem on the empty store, as in the test of the repository: the first retrieval
  returns \<^verbatim>\<open>true\<close>, the second would return \<^verbatim>\<open>false\<close>.
\<close>

theorem second_call_served_from_cache_witness:
  "slots (client demo_client) ''testBool'' = None
   \<and> fst (retrieve_returning (JBool True) ()) = Inr (JBool True) \<and> JBool True \<noteq> JNull
   \<and> opt_field bypassCache None \<noteq> Some True
   \<and> \<not> rejects (client demo_client) (Get ''testBool'')
   \<and> \<not> rejects (client demo_client) (Set ''testBool'' ''true'' [ArgS ''EX'', ArgN (Fin 300)])
   \<and> renewal_accepted demo_client None \<and> serializable (JBool True)
   \<and> result_of (getValueOrRetrieve demo_client (KeyString ''testBool'')
        (counted (retrieve_returning (JBool True))) None (0, ())) = Inr (JBool True)
   \<and> world_after (getValueOrRetrieve demo_client (KeyString ''testBool'')
        (counted (retrieve_returning (JBool True))) None (0, ())) = (1, ())
   \<and> result_of (getValueOrRetrieve
        (fst (snd (getValueOrRetrieve demo_client (KeyString ''testBool'')
           (counted (retrieve_returning (JBool True))) None (0, ()))))
        (KeyString ''testBool'') (counted (retrieve_returning (JBool False))) None
        (world_after (getValueOrRetrieve demo_client (KeyString ''testBool'')
           (counted (retrieve_returning (JBool True))) None (0, ())))) = Inr (JBool True)
   \<and> world_after (getValueOrRetrieve
        (fst (snd (getValueOrRetrieve demo_client (KeyString ''testBool'')
           (counted (retrieve_returning (JBool True))) None (0, ()))))
        (KeyString ''testBool'') (counted (retrieve_returning (JBool False))) None
        (world_after (getValueOrRetrieve demo_client (KeyString ''testBool'')
           (counted (retrieve_returning (JBool True))) None (0, ())))) = (1, ())"
proof -
  have a: "slots (client demo_client) (computeCacheKey (getValueOrRetrieveKeyPrefix demo_client)
      (KeyString ''testBool'')) = None"
    by (simp add: demo_client_fields)
  have b: "fst (retrieve_returning (JBool True) ()) = Inr (JBool True)"
    by (simp add: retrieve_returning_def)
  have c: "JBool True \<noteq> JNull" by simp
  have d: "\<not> rejects (client demo_client)
      (Get (computeCacheKey (getValueOrRetrieveKeyPrefix demo_client) (KeyString ''testBool'')))"
    by (simp add: demo_client_fields)
  have e: "\<not> rejects (client demo_client)
      (Set (computeCacheKey (getValueOrRetrieveKeyPrefix demo_client) (KeyString ''testBool''))
         (JSON_stringify (JBool True))
         [ArgS ''EX'', ArgN (expirationTime (getValueOrRetrieveCacheDurationInMs demo_client) None)])"
    by (simp add: demo_client_fields)
  have p: "slots (client demo_client) ''testBool'' = None
      \<and> \<not> rejects (client demo_client) (Get ''testBool'')
      \<and> \<not> rejects (client demo_client) (Set ''testBool'' ''true'' [ArgS ''EX'', ArgN (Fin 300)])"
    by (simp add: demo_client_fields)
  have u: "snd (retrieve_returning (JBool True) ()) = ()"
    by simp
  have n: "opt_field bypassCache None \<noteq> Some True"
    by (simp add: opt_field_def)
  have ra: "renewal_accepted demo_client None"
    by (simp add: renewal_accepted_def opt_field_def)
  have ser: "serializable (JBool True)" by simp
  note t = second_call_served_from_cache [where ?r1.0 = "retrieve_returning (JBool True)"
      and w = "()" and ?r2.0 = "retrieve_returning (JBool False)", OF a b c n n d e ra ser]
  show ?thesis
    using p b c n ra ser t unfolding u by blast
qed

subsection \<open>Reading the null marker\<close>

text \<open>
  A call that does not bypass the cache reads the null marker. When
  \<^verbatim>\<open>saveNullResponse\<close> is not \<^verbatim>\<open>false\<close> and the renewal does not throw, the call returns
  \<^verbatim>\<open>null\<close> and the retrieval
  function is not invoked (the counter and the caller's state are unchanged). When
  \<^verbatim>\<open>saveNullResponse\<close> is \<^verbatim>\<open>false\<close> the retrieval function is invoked once, and a
  \<^verbatim>\<open>null\<close> result is returned and leaves the key space as it was. In a sequence of calls
  on that key with \<^verbatim>\<open>saveNullResponse\<close> \<^verbatim>\<open>false\<close>, as long as the retrievals before it
  returned \<^verbatim>\<open>null\<close>, every call invokes its retrieval function: the counter ends at the
  number of calls.
\<close>

theorem sentinel_read:
  assumes "opt_field bypassCache options \<noteq> Some True"
    and "\<not> rejects (client c) (Get (computeCacheKey (getValueOrRetrieveKeyPrefix c) key))"
    and "slots (client c) (computeCacheKey (getValueOrRetrieveKeyPrefix c) key) = Some (NULL_SYMBOL, ttl)"
  shows "(opt_field saveNullResponse options \<noteq> Some False \<and> renewal_accepted c options \<longrightarrow>
            result_of (getValueOrRetrieve c key (counted retrieve) options (n, w)) = Inr JNull
          \<and> world_after (getValueOrRetrieve c key (counted retrieve) options (n, w)) = (n, w))
    \<and> (opt_field saveNullResponse options = Some False \<longrightarrow>
            world_after (getValueOrRetrieve c key (counted retrieve) options (n, w))
              = (Suc n, snd (retrieve w))
          \<and> (fst (retrieve w) = Inr JNull \<longrightarrow>
                result_of (getValueOrRetrieve c key (counted retrieve) options (n, w)) = Inr JNull
              \<and> slots (client_after (getValueOrRetrieve c key (counted retrieve) options (n, w)))
                  = slots (client c)))
    \<and> (\<forall>calls r opts.
          (\<forall>call \<in> set calls. opt_field saveNullResponse (snd call) = Some False
              \<and> (\<forall>x. fst (fst call x) = Inr JNull))
          \<and> opt_field saveNullResponse opts = Some False \<longrightarrow>
          fst (snd (call_sequence c key
                 (map (\<lambda>call. (counted (fst call), snd call)) (calls @ [(r, opts)])) (n, w)))
            = n + length calls + 1)"
proof -
  let ?k = "computeCacheKey (getValueOrRetrieveKeyPrefix c) key"
  let ?t = "expirationTime (getValueOrRetrieveCacheDurationInMs c) options"
  have hit: "result_of (getValueOrRetrieve c key (counted retrieve) options (n, w)) = Inr JNull
      \<and> world_after (getValueOrRetrieve c key (counted retrieve) options (n, w)) = (n, w)"
    if snr: "opt_field saveNullResponse options \<noteq> Some False" and ra: "renewal_accepted c options"
  proof -
    from renew_returns [OF ra [unfolded renewal_accepted_def]]
    obtain c' where c': "renew (c\<lparr>client := issue (client c) (Get ?k)\<rparr>) ?k ?t options = Inr c'"
      by blast
    show ?thesis
      using getValueOrRetrieve_hit [OF assms sentinel_hit [OF snr],
          where retrieve = "counted retrieve" and w = "(n, w)"]
      by (simp add: c' outcome_defs)
  qed
  have miss: "world_after (getValueOrRetrieve c key (counted retrieve) options (n, w))
              = (Suc n, snd (retrieve w))
      \<and> (fst (retrieve w) = Inr JNull \<longrightarrow>
            result_of (getValueOrRetrieve c key (counted retrieve) options (n, w)) = Inr JNull
          \<and> slots (client_after (getValueOrRetrieve c key (counted retrieve) options (n, w)))
              = slots (client c))"
    if snr: "opt_field saveNullResponse options = Some False"
  proof -
    have reach: "reaches_retrieval c key options"
      using snr assms(2,3) by (rule sentinel_reaches_retrieval)
    have inv: "world_after (getValueOrRetrieve c key (counted retrieve) options (n, w))
              = (Suc n, snd (retrieve w))"
      using reaches_retrieval_invoked [OF reach, of "counted retrieve" "(n, w)"] by simp
    have "result_of (getValueOrRetrieve c key (counted retrieve) options (n, w)) = Inr JNull
          \<and> slots (client_after (getValueOrRetrieve c key (counted retrieve) options (n, w)))
              = slots (client c)"
      if null: "fst (retrieve w) = Inr JNull"
    proof -
      have "fst (counted retrieve (n, w)) = Inr JNull" using null by simp
      from null_dropped_call [where retrieve = "counted retrieve" and w = "(n, w)", OF reach this snr]
      show ?thesis by (auto simp: outcome_defs)
    qed
    with inv show ?thesis by blast
  qed
  have seq: "fst (snd (call_sequence c key
                 (map (\<lambda>call. (counted (fst call), snd call)) (calls @ [(r, opts)])) (n, w)))
            = n + length calls + 1"
    if nulls: "\<forall>call \<in> set calls. opt_field saveNullResponse (snd call) = Some False
              \<and> (\<forall>x. fst (fst call x) = Inr JNull)"
      and last: "opt_field saveNullResponse opts = Some False"
    for calls r opts
  proof -
    let ?run = "call_sequence c key (map (\<lambda>call. (counted (fst call), snd call)) calls) (n, w)"
    from null_dropping_sequence [OF nulls assms(2,3), of n w] obtain rc where
      c': "fst ?run = c\<lparr>client := rc\<rparr>" and s: "slots rc = slots (client c)"
      and rj: "rejects rc = rejects (client c)" and cnt: "fst (snd ?run) = n + length calls"
      by blast
    have reach: "reaches_retrieval (fst ?run) key opts"
      using last assms(2,3) s rj
      by (intro sentinel_reaches_retrieval [where ttl = ttl]) (simp_all add: c')
    obtain m w' where w': "snd ?run = (m, w')" by (cases "snd ?run")
    have m: "m = n + length calls" using cnt w' by simp
    have "world_after (getValueOrRetrieve (fst ?run) key (counted r) opts (m, w')) = (Suc m, snd (r w'))"
      using reaches_retrieval_invoked [OF reach, of "counted r" "(m, w')"] by simp
    then show ?thesis
      using w' m
      by (auto simp: call_sequence_append world_after_def split: prod.splits)
  qed
  show ?thesis using hit miss seq by blast
qed

text \<open>
  The theorem on a store that holds the marker: one call with no options, one call with
  \<^verbatim>\<open>saveNullResponse\<close> \<^verbatim>\<open>false\<close>, and three such calls in sequence.
\<close>

theorem sentinel_read_witness:
  "opt_field bypassCache (Some (options_with_saveNullResponse False)) \<noteq> Some True
   \<and> \<not> rejects (client (demo_client_with ''k'' NULL_SYMBOL)) (Get ''k'')
   \<and> slots (client (demo_client_with ''k'' NULL_SYMBOL)) ''k'' = Some (NULL_SYMBOL, None)
   \<and> opt_field saveNullResponse None \<noteq> Some False
   \<and> renewal_accepted (demo_client_with ''k'' NULL_SYMBOL) None
   \<and> result_of (getValueOrRetrieve (demo_client_with ''k'' NULL_SYMBOL) (KeyString ''k'')
        (counted (retrieve_returning (JStr ''Hello''))) None (0, ())) = Inr JNull
   \<and> world_after (getValueOrRetrieve (demo_client_with ''k'' NULL_SYMBOL) (KeyString ''k'')
        (counted (retrieve_returning (JStr ''Hello''))) None (0, ())) = (0, ())
   \<and> opt_field saveNullResponse (Some (options_with_saveNullResponse False)) = Some False
   \<and> world_after (getValueOrRetrieve (demo_client_with ''k'' NULL_SYMBOL) (KeyString ''k'')
        (counted (retrieve_returning JNull)) (Some (options_with_saveNullResponse False)) (0, ()))
       = (1, ())
   \<and> fst (snd (call_sequence (demo_client_with ''k'' NULL_SYMBOL) (KeyString ''k'')
        (map (\<lambda>call. (counted (fst call), snd call))
           ([(retrieve_returning JNull, Some (options_with_saveNullResponse False)),
             (retrieve_returning JNull, Some (options_with_saveNullResponse False))]
            @ [(retrieve_returning (JStr ''Hello''), Some (options_with_saveNullResponse False))]))
        (0, ()))) = 3"
proof -
  let ?c = "demo_client_with ''k'' NULL_SYMBOL"
  let ?off = "Some (options_with_saveNullResponse False)"
  have b: "opt_field bypassCache ?off \<noteq> Some True" "opt_field bypassCache None \<noteq> Some True"
    by (simp_all add: opt_field_def options_with_saveNullResponse_def)
  have g: "\<not> rejects (client ?c) (Get (computeCacheKey (getValueOrRetrieveKeyPrefix ?c) (KeyString ''k'')))"
    by (simp add: demo_client_with_fields)
  have s: "slots (client ?c) (computeCacheKey (getValueOrRetrieveKeyPrefix ?c) (KeyString ''k''))
      = Some (NULL_SYMBOL, None)"
    by (simp add: demo_client_with_fields)
  have snr: "opt_field saveNullResponse None \<noteq> Some False"
    "opt_field saveNullResponse ?off = Some False"
    by (simp_all add: opt_field_def options_with_saveNullResponse_def)
  note hit = sentinel_read [OF b(2) g s, where retrieve = "retrieve_returning (JStr ''Hello'')"
      and n = 0 and w = "()"]
  note miss = sentinel_read [OF b(1) g s, where retrieve = "retrieve_returning JNull"
      and n = 0 and w = "()"]
  from miss have "\<forall>calls r opts.
          (\<forall>call \<in> set calls. opt_field saveNullResponse (snd call) = Some False
              \<and> (\<forall>x. fst (fst call x) = Inr JNull))
          \<and> opt_field saveNullResponse opts = Some False \<longrightarrow>
          fst (snd (call_sequence ?c (KeyString ''k'')
                 (map (\<lambda>call. (counted (fst call), snd call)) (calls @ [(r, opts)])) (0, ())))
            = 0 + length calls + 1"
    by blast
  from this [rule_format, of "[(retrieve_returning JNull, ?off), (retrieve_returning JNull, ?off)]"
      ?off "retrieve_returning (JStr ''Hello'')"]
  have seq: "fst (snd (call_sequence ?c (KeyString ''k'')
        (map (\<lambda>call. (counted (fst call), snd call))
           ([(retrieve_returning JNull, ?off), (retrieve_returning JNull, ?off)]
            @ [(retrieve_returning (JStr ''Hello''), ?off)]))
        (0, ()))) = 3"
    using snr(2) by (simp add: retrieve_returning_def)
  have ra: "renewal_accepted ?c None"
    by (simp add: renewal_accepted_def opt_field_def)
  show ?thesis
    using b g s snr ra hit miss seq
    by (simp add: retrieve_returning_def demo_client_with_fields)
qed

text \<open>
  Claim C2. The claim fails where the renewal throws. The slot holds the null marker and
  the options ask for the renewal with a duration of 1500 milliseconds:
  \<^verbatim>\<open>saveNullResponse\<close> is not \<^verbatim>\<open>false\<close>, the read is a hit, and line 402 calls
  \<^verbatim>\<open>expire\<close> with 1.5 seconds. \<^verbatim>\<open>expire\<close> throws at the call, the handler of \<^verbatim>\<open>.catch\<close> is
  never attached, and the call raises that error where the claim says that it returns
  \<^verbatim>\<open>null\<close>; the retrieval function is not invoked. With 2000 milliseconds in place of
  1500 the same call returns \<^verbatim>\<open>null\<close> (\<open>sentinel_read\<close> is the general case).
\<close>

theorem sentinel_hit_raises_when_expire_throws:
  "result_of (getValueOrRetrieve (demo_client_with ''k'' NULL_SYMBOL) (KeyString ''k'')
        (counted (retrieve_returning (JStr ''Hello''))) (Some (options_with_renewal (Fin 1500))) (0, ()))
     = Inl ArgumentError
   \<and> world_after (getValueOrRetrieve (demo_client_with ''k'' NULL_SYMBOL) (KeyString ''k'')
        (counted (retrieve_returning (JStr ''Hello''))) (Some (options_with_renewal (Fin 1500))) (0, ()))
     = (0, ())
   \<and> opt_field saveNullResponse (Some (options_with_renewal (Fin 1500))) \<noteq> Some False
   \<and> opt_field bypassCache (Some (options_with_renewal (Fin 1500))) \<noteq> Some True
   \<and> result_of (getValueOrRetrieve (demo_client_with ''k'' NULL_SYMBOL) (KeyString ''k'')
        (counted (retrieve_returning (JStr ''Hello''))) (Some (options_with_renewal (Fin 2000))) (0, ()))
     = Inr JNull"
proof -
  let ?c = "demo_client_with ''k'' NULL_SYMBOL"
  have h: "cache_hit (Some NULL_SYMBOL) (Some (options_with_renewal ms))" for ms
    by (simp add: cache_hit_def truthy_string_def opt_field_def options_with_renewal_def
        NULL_SYMBOL_def)
  have d: "to_double (3 / 2) = Fin (3 / 2)"
    by code_simp
  have t: "expirationTime (Fin 300000) (Some (options_with_renewal (Fin 1500))) = Fin (3 / 2)"
    "expirationTime (Fin 300000) (Some (options_with_renewal (Fin 2000))) = Fin 2"
    using num_divide_int [of 1000 2] d
    by (simp_all add: expirationTime_def opt_field_def options_with_renewal_def SECONDS_def
        falsy_number_def num_divide_Fin)
  have fl: "\<lfloor>3 / 2 :: rat\<rfloor> = 1"
    by (rule floor_unique) simp_all
  have a: "\<not> expire_accepts (Fin (3 / 2))" "expire_accepts (Fin 2)"
    by (simp_all add: expire_accepts_def fl)
  have f: "opt_field renewCacheDurationOnAccess (Some (options_with_renewal ms)) = Some True"
    "opt_field bypassCache (Some (options_with_renewal ms)) \<noteq> Some True"
    "opt_field saveNullResponse (Some (options_with_renewal ms)) \<noteq> Some False" for ms
    by (simp_all add: opt_field_def options_with_renewal_def)
  have bad: "getValueOrRetrieve ?c (KeyString ''k'')
        (counted (retrieve_returning (JStr ''Hello''))) (Some (options_with_renewal (Fin 1500))) (0, ())
      = (Inl ArgumentError, ?c\<lparr>client := issue (client ?c) (Get ''k'')\<rparr>, (0, ()))"
    by (simp add: getValueOrRetrieve_def redis_get_def demo_client_with_fields h t f
        renew_throws [OF f(1) a(1)] Let_def)
  have good: "result_of (getValueOrRetrieve ?c (KeyString ''k'')
        (counted (retrieve_returning (JStr ''Hello''))) (Some (options_with_renewal (Fin 2000))) (0, ()))
      = Inr JNull"
    by (simp add: getValueOrRetrieve_def redis_get_def demo_client_with_fields h t f a
        renew_def redis_expire_def outcome_defs Let_def)
  show ?thesis
    using f [of "Fin 1500"] good by (simp add: bad outcome_defs)
qed

subsection \<open>A failing retrieval\<close>

text \<open>
  Claim C3. When a call of \<^verbatim>\<open>getValueOrRetrieve\<close> reaches the retrieval step and the
  retrieval function raises, the call raises the same error, the caller's state is the
  one the retrieval function left, and no write is performed: the key space of the store
  is as it was before the call, and the only command the call has issued is the read of
  the computed key (none when the cache is bypassed).
\<close>

theorem retrieval_failure_writes_nothing:
  assumes "reaches_retrieval c key options" and "fst (retrieve w) = Inl e"
  shows "result_of (getValueOrRetrieve c key retrieve options w) = Inl e
    \<and> world_after (getValueOrRetrieve c key retrieve options w) = snd (retrieve w)
    \<and> slots (client_after (getValueOrRetrieve c key retrieve options w)) = slots (client c)
    \<and> issued (client_after (getValueOrRetrieve c key retrieve options w)) =
        issued (client c) @
          (if opt_field bypassCache options = Some True then []
           else [Get (computeCacheKey (getValueOrRetrieveKeyPrefix c) key)])"
proof -
  let ?k = "computeCacheKey (getValueOrRetrieveKeyPrefix c) key"
  note ras = retrieve_and_store_raise [where retrieve = retrieve and w = w, OF assms(2)]
  show ?thesis
  proof (cases "opt_field bypassCache options = Some True")
    case True
    then show ?thesis
      by (simp add: getValueOrRetrieve_def Let_def ras outcome_defs)
  next
    case False
    from assms(1) False obtain v rc where g: "redis_get (client c) ?k = (Inr v, rc)"
      and miss: "\<not> cache_hit v options"
      by (auto simp: reaches_retrieval_def split: prod.splits sum.splits)
    have rc: "rc = issue (client c) (Get ?k)"
      using redis_get_client [of "client c" ?k] g by simp
    show ?thesis using False g miss rc
      by (simp add: getValueOrRetrieve_def Let_def ras outcome_defs)
  qed
qed

text \<open>
  The theorem at a key that is absent from the store, with a retrieval function that
  raises and is counted: one invocation, one \<^verbatim>\<open>GET\<close>, no slot for the key.
\<close>

theorem retrieval_failure_writes_nothing_witness:
  "reaches_retrieval (demo_client_with ''k'' ''7'') (KeyString ''j'') None
   \<and> fst (counted (retrieve_raising ''down'') (0, ())) = Inl (Thrown ''down'')
   \<and> result_of (getValueOrRetrieve (demo_client_with ''k'' ''7'') (KeyString ''j'')
        (counted (retrieve_raising ''down'')) None (0, ())) = Inl (Thrown ''down'')
   \<and> world_after (getValueOrRetrieve (demo_client_with ''k'' ''7'') (KeyString ''j'')
        (counted (retrieve_raising ''down'')) None (0, ())) = (1, ())
   \<and> slots (client_after (getValueOrRetrieve (demo_client_with ''k'' ''7'') (KeyString ''j'')
        (counted (retrieve_raising ''down'')) None (0, ()))) ''j'' = None
   \<and> issued (client_after (getValueOrRetrieve (demo_client_with ''k'' ''7'') (KeyString ''j'')
        (counted (retrieve_raising ''down'')) None (0, ()))) = [Get ''j'']"
proof -
  have r: "reaches_retrieval (demo_client_with ''k'' ''7'') (KeyString ''j'') None"
    by (simp add: reaches_retrieval_def redis_get_def cache_hit_def truthy_string_def
        demo_client_with_def demo_client_def write_slot_def opt_field_def)
  have f: "fst (counted (retrieve_raising ''down'') (0, ())) = Inl (Thrown ''down'')"
    by (simp add: counted_def retrieve_raising_def)
  have w: "snd (counted (retrieve_raising ''down'') (0, ())) = (1, ())"
    by (simp add: counted_def retrieve_raising_def)
  have s: "slots (client (demo_client_with ''k'' ''7'')) ''j'' = None"
    "issued (client (demo_client_with ''k'' ''7'')) = []"
    "getValueOrRetrieveKeyPrefix (demo_client_with ''k'' ''7'') = []"
    by (simp_all add: demo_client_with_def demo_client_def write_slot_def)
  from retrieval_failure_writes_nothing [where retrieve = "counted (retrieve_raising ''down'')"
      and w = "(0, ())", OF r f]
  show ?thesis using r f w s by (simp add: opt_field_def)
qed

subsection \<open>Time to live\<close>

lemma scaled_seconds:
  assumes "\<bar>k * 1000 * n\<bar> < 2 ^ 53" and "\<bar>k * n\<bar> < 2 ^ 53" and "0 < k"
  shows "num_divide (num_times (Fin (of_int (k * 1000))) (Fin (of_int n))) (Fin 1000)
    = Fin (of_int (k * n))"
proof -
  have "k * 1000 * n = k * n * 1000" by simp
  then have "num_times (Fin (of_int (k * 1000))) (Fin (of_int n)) = Fin (of_int (k * n * 1000))"
    using num_times_int [of "k * 1000" n] assms(1,3) by simp
  then show ?thesis
    using num_divide_int [of 1000 "k * n"] assms(2) by simp
qed

lemma double_of_4_35: "to_double (87 / 20) = Fin (2448832297382707 / 562949953421312)"
  by code_simp

lemma double_of_1_5: "to_double (3 / 2) = Fin (3 / 2)"
  by code_simp

text \<open>
  Claim C4, as amended. The time to live in seconds that \<^verbatim>\<open>getValueOrRetrieve\<close> computes
  from \<^verbatim>\<open>options.duration\<close>. A raw number \<open>d\<close> that is not falsy gives the quotient
  \<^verbatim>\<open>d / 1000\<close>. A pair of a value \<open>v\<close> and a unit gives \<^verbatim>\<open>v / 1000\<close> for milliseconds and
  \<^verbatim>\<open>(m * v) / 1000\<close> for the other units, where \<open>m\<close> is 1000 for seconds, 60000 for minutes
  and 3600000 for hours and, with the multiplier of hours, for days; product and quotient
  are those of doubles, each rounded. When \<open>v\<close> is a whole number \<open>n\<close> of magnitude up to
  \<open>2 ^ 31\<close> nothing is rounded, and the result is \<open>n\<close> for seconds, \<open>60 * n\<close> for minutes and
  \<open>3600 * n\<close> for hours and for days. An absent duration gives the client's default in
  milliseconds divided by 1000, and the default that the constructor falls back to is
  five minutes, 300 seconds.
\<close>

theorem ttl_resolution:
  assumes "\<bar>n\<bar> \<le> 2 ^ 31"
  shows "(\<not> falsy_number d \<longrightarrow>
            expirationTime dflt (Some (opts\<lparr>duration := Some (Raw d)\<rparr>)) = num_divide d (Fin 1000))
    \<and> expirationTime dflt (Some (opts\<lparr>duration := Some (Dur v MILLISECONDS)\<rparr>))
        = num_divide v (Fin 1000)
    \<and> expirationTime dflt (Some (opts\<lparr>duration := Some (Dur v SECONDS_U)\<rparr>))
        = num_divide (num_times (Fin 1000) v) (Fin 1000)
    \<and> expirationTime dflt (Some (opts\<lparr>duration := Some (Dur v MINUTES_U)\<rparr>))
        = num_divide (num_times (Fin 60000) v) (Fin 1000)
    \<and> expirationTime dflt (Some (opts\<lparr>duration := Some (Dur v HOURS_U)\<rparr>))
        = num_divide (num_times (Fin 3600000) v) (Fin 1000)
    \<and> expirationTime dflt (Some (opts\<lparr>duration := Some (Dur v DAYS_U)\<rparr>))
        = num_divide (num_times (Fin 3600000) v) (Fin 1000)
    \<and> expirationTime dflt (Some (opts\<lparr>duration := Some (Dur (Fin (of_int n)) SECONDS_U)\<rparr>))
        = Fin (of_int n)
    \<and> expirationTime dflt (Some (opts\<lparr>duration := Some (Dur (Fin (of_int n)) MINUTES_U)\<rparr>))
        = Fin (of_int (60 * n))
    \<and> expirationTime dflt (Some (opts\<lparr>duration := Some (Dur (Fin (of_int n)) HOURS_U)\<rparr>))
        = Fin (of_int (3600 * n))
    \<and> expirationTime dflt (Some (opts\<lparr>duration := Some (Dur (Fin (of_int n)) DAYS_U)\<rparr>))
        = Fin (of_int (3600 * n))
    \<and> expirationTime dflt (Some (opts\<lparr>duration := None\<rparr>)) = num_divide dflt (Fin 1000)
    \<and> expirationTime dflt None = num_divide dflt (Fin 1000)
    \<and> defaultCacheDurationInMs None = Fin 300000
    \<and> expirationTime (defaultCacheDurationInMs None) None = Fin 300"
proof -
  have b: "\<bar>n\<bar> \<le> 2147483648" using assms by simp
  have s: "num_divide (num_times (Fin 1000) (Fin (of_int n))) (Fin 1000) = Fin (of_int n)"
    using scaled_seconds [of 1 n] b by simp
  have m: "num_divide (num_times (Fin 60000) (Fin (of_int n))) (Fin 1000) = Fin (of_int (60 * n))"
    using scaled_seconds [of 60 n] b by simp
  have h: "num_divide (num_times (Fin 3600000) (Fin (of_int n))) (Fin 1000) = Fin (of_int (3600 * n))"
    using scaled_seconds [of 3600 n] b by simp
  have general: "(\<not> falsy_number d \<longrightarrow>
            expirationTime dflt (Some (opts\<lparr>duration := Some (Raw d)\<rparr>)) = num_divide d (Fin 1000))"
    "expirationTime dflt (Some (opts\<lparr>duration := Some (Dur u MILLISECONDS)\<rparr>))
        = num_divide u (Fin 1000)"
    "expirationTime dflt (Some (opts\<lparr>duration := Some (Dur u SECONDS_U)\<rparr>))
        = num_divide (num_times (Fin 1000) u) (Fin 1000)"
    "expirationTime dflt (Some (opts\<lparr>duration := Some (Dur u MINUTES_U)\<rparr>))
        = num_divide (num_times (Fin 60000) u) (Fin 1000)"
    "expirationTime dflt (Some (opts\<lparr>duration := Some (Dur u HOURS_U)\<rparr>))
        = num_divide (num_times (Fin 3600000) u) (Fin 1000)"
    "expirationTime dflt (Some (opts\<lparr>duration := Some (Dur u DAYS_U)\<rparr>))
        = num_divide (num_times (Fin 3600000) u) (Fin 1000)"
    "expirationTime dflt (Some (opts\<lparr>duration := None\<rparr>)) = num_divide dflt (Fin 1000)"
    "expirationTime dflt None = num_divide dflt (Fin 1000)" for u
    by (simp_all add: expirationTime_def opt_field_def SECONDS_def MINUTES_value HOURS_value)
  have dflt: "defaultCacheDurationInMs None = Fin 300000"
    "expirationTime (defaultCacheDurationInMs None) None = Fin 300"
    by (simp_all add: defaultCacheDurationInMs_def five_minutes expirationTime_default)
  have whole: "expirationTime dflt (Some (opts\<lparr>duration := Some (Dur (Fin (of_int n)) SECONDS_U)\<rparr>))
        = Fin (of_int n)"
    "expirationTime dflt (Some (opts\<lparr>duration := Some (Dur (Fin (of_int n)) MINUTES_U)\<rparr>))
        = Fin (of_int (60 * n))"
    "expirationTime dflt (Some (opts\<lparr>duration := Some (Dur (Fin (of_int n)) HOURS_U)\<rparr>))
        = Fin (of_int (3600 * n))"
    "expirationTime dflt (Some (opts\<lparr>duration := Some (Dur (Fin (of_int n)) DAYS_U)\<rparr>))
        = Fin (of_int (3600 * n))"
    unfolding general(3-6) s m h by (rule refl)+
  show ?thesis
    using general(1) general(2-6) [of v] general(7-8) whole dflt by blast
qed

text \<open>The theorem at a raw duration of 1500 milliseconds and at two days.\<close>

theorem ttl_resolution_witness:
  "\<bar>2 :: int\<bar> \<le> 2 ^ 31 \<and> \<not> falsy_number (Fin 1500)
   \<and> expirationTime (Fin 300000)
        (Some \<lparr>duration = Some (Raw (Fin 1500)), renewCacheDurationOnAccess = None,
               saveNullResponse = None, bypassCache = None\<rparr>) = Fin (3 / 2)
   \<and> expirationTime (Fin 300000)
        (Some \<lparr>duration = Some (Dur (Fin 2) DAYS_U), renewCacheDurationOnAccess = None,
               saveNullResponse = None, bypassCache = None\<rparr>) = Fin 7200"
proof -
  have n: "\<bar>2 :: int\<bar> \<le> 2 ^ 31" by simp
  have q: "num_divide (Fin 1500) (Fin 1000) = Fin (3 / 2)"
    by (simp add: num_divide_Fin double_of_1_5)
  show ?thesis
    using ttl_resolution [OF n, where d = "Fin 1500" and dflt = "Fin 300000" and v = "Fin 0"
      and opts = "\<lparr>duration = None, renewCacheDurationOnAccess = None, saveNullResponse = None,
        bypassCache = None\<rparr>"]
    by (simp add: q falsy_number_def)
qed

text \<open>
  Claim C4 as stated says that a value \<open>v\<close> in minutes yields \<open>60 * v\<close>. The code computes
  \<^verbatim>\<open>(60000 * v) / 1000\<close>, and both operations round. For the number written \<^verbatim>\<open>4.35\<close> the
  product \<^verbatim>\<open>60 * v\<close> is 261, and the code computes the double below it,
  260.99999999999994.
\<close>

theorem ttl_minutes_counterexample:
  "expirationTime (Fin 300000)
     (Some \<lparr>duration = Some (Dur (to_double (87 / 20)) MINUTES_U), renewCacheDurationOnAccess = None,
            saveNullResponse = None, bypassCache = None\<rparr>)
     = Fin (4591560557592575 / 17592186044416)
   \<and> num_times (Fin 60) (to_double (87 / 20)) = Fin 261
   \<and> Fin (4591560557592575 / 17592186044416) \<noteq> Fin 261"
proof -
  have a: "to_double (60000 * (2448832297382707 / 562949953421312))
      = Fin (8967891714047999 / 34359738368)"
    by code_simp
  have b: "to_double (8967891714047999 / 34359738368 / 1000)
      = Fin (4591560557592575 / 17592186044416)"
    by code_simp
  have c: "to_double (60 * (2448832297382707 / 562949953421312)) = Fin 261"
    by code_simp
  show ?thesis
    using a b c
    by (simp add: expirationTime_def opt_field_def SECONDS_def MINUTES_value double_of_4_35
        num_times_Fin num_divide_Fin)
qed

subsection \<open>Round trip of values\<close>




subsection \<open>Decoding on the two read paths\<close>

text \<open>
  Claim C6 says that decoding never raises on either read path. \<^verbatim>\<open>getValue\<close> never
  raises a \<^verbatim>\<open>SyntaxError\<close>: it catches the failure of \<^verbatim>\<open>JSON.parse\<close> and returns the raw
  string. The hit branch of \<^verbatim>\<open>getValueOrRetrieve\<close> calls \<^verbatim>\<open>JSON.parse\<close> without a
  handler: on a slot that holds \<^verbatim>\<open>World\<close>, as \<^verbatim>\<open>setValue("Hello", "World")\<close> leaves it,
  the call raises the \<^verbatim>\<open>SyntaxError\<close>, and the retrieval function is not invoked
  (\<open>hit_branch_raises\<close> is the general case).
\<close>

theorem unparsable_slot_on_the_two_read_paths:
  "fst (getValue c k raw) \<noteq> Inl SyntaxError
   \<and> fst (getValue (demo_client_with ''Hello'' ''World'') ''Hello'' None) = Inr (JStr ''World'')
   \<and> result_of (getValueOrRetrieve (demo_client_with ''Hello'' ''World'') (KeyString ''Hello'')
        (counted (retrieve_returning (JStr ''fresh''))) None (0, ())) = Inl SyntaxError
   \<and> world_after (getValueOrRetrieve (demo_client_with ''Hello'' ''World'') (KeyString ''Hello'')
        (counted (retrieve_returning (JStr ''fresh''))) None (0, ())) = (0, ())"
proof -
  have w: "JSON_parse ''World'' = Inl SyntaxError" by code_simp
  have a: "fst (getValue c k raw) \<noteq> Inl SyntaxError"
    by (auto simp: getValue_def redis_get_def split: sum.splits if_splits)
  have b: "fst (getValue (demo_client_with ''Hello'' ''World'') ''Hello'' None) = Inr (JStr ''World'')"
    by (simp add: getValue_def redis_get_def demo_client_with_fields w)
  have h: "cache_hit (Some ''World'') None"
    by (simp add: cache_hit_def truthy_string_def opt_field_def)
  have c: "getValueOrRetrieve (demo_client_with ''Hello'' ''World'') (KeyString ''Hello'')
        (counted (retrieve_returning (JStr ''fresh''))) None (0, ())
      = (Inl SyntaxError,
         (demo_client_with ''Hello'' ''World'')
           \<lparr>client := issue (client (demo_client_with ''Hello'' ''World'')) (Get ''Hello'')\<rparr>,
         (0, ()))"
    by (simp add: getValueOrRetrieve_def redis_get_def demo_client_with_fields h w Let_def
        opt_field_def NULL_SYMBOL_def renew_def)
  show ?thesis using a b by (simp add: c outcome_defs)
qed

subsection \<open>Cache keys\<close>

text \<open>
  Claim C7, as amended. A string input derives the prefix followed by the string. An
  array input derives the prefix followed by each element with the separator \<^verbatim>\<open>_\<close> in
  front of it, in order; this is the prefix and the elements, all joined with the
  separator, so the separator also stands between the prefix and the first element.
  Equal inputs derive equal keys.
\<close>

theorem cache_key_derivation:
  "computeCacheKey p (KeyString s) = p @ s
   \<and> computeCacheKey p (KeyArray es) = p @ concat (map (\<lambda>e. ''_'' @ e) es)
   \<and> computeCacheKey p (KeyArray es) = join_with ''_'' (p # es)
   \<and> (k1 = k2 \<longrightarrow> computeCacheKey p k1 = computeCacheKey p k2)"
  by (simp add: computeCacheKey_loop_concat join_with_cons)

text \<open>The theorem at the prefix \<^verbatim>\<open>app\<close>.\<close>

theorem cache_key_derivation_witness:
  "computeCacheKey ''app'' (KeyString ''user'') = ''appuser''
   \<and> computeCacheKey ''app'' (KeyArray [''vehicles'', ''de'']) = ''app_vehicles_de''
   \<and> KeyArray [''vehicles'', ''de''] = KeyArray [''vehicles'', ''de'']"
  using cache_key_derivation [of "''app''" "''user''" "[''vehicles'', ''de'']"
      "KeyArray [''vehicles'', ''de'']" "KeyArray [''vehicles'', ''de'']"]
  by simp

text \<open>
  Claim C7 as stated derives the prefix followed by the elements joined with the
  separator (\<open>spec_cache_key\<close>). With the empty prefix and the array of \<^verbatim>\<open>vehicles\<close> and
  \<^verbatim>\<open>de\<close> the code derives a key that starts with the separator.
\<close>

theorem cache_key_join_counterexample:
  "computeCacheKey [] (KeyArray [''vehicles'', ''de'']) = ''_vehicles_de''
   \<and> spec_cache_key [] (KeyArray [''vehicles'', ''de'']) = ''vehicles_de''
   \<and> computeCacheKey [] (KeyArray [''vehicles'', ''de''])
       \<noteq> spec_cache_key [] (KeyArray [''vehicles'', ''de''])"
  by simp

subsection \<open>Writing the result of the retrieval\<close>

text \<open>
  Claim C8. When a call of \<^verbatim>\<open>getValueOrRetrieve\<close> reaches the retrieval step, the
  retrieval function returns \<^verbatim>\<open>null\<close> and \<^verbatim>\<open>saveNullResponse\<close> is not \<^verbatim>\<open>false\<close>, the
  last command of the call is a \<^verbatim>\<open>SET\<close> of the null marker at the computed key with no
  further argument; when the store accepts it the call returns \<^verbatim>\<open>null\<close> and the slot holds
  the marker without a time to live. A value other than \<^verbatim>\<open>null\<close> is written as its JSON
  text with the arguments \<^verbatim>\<open>EX\<close> and the computed time to live, and is returned.
\<close>

theorem null_result_written_without_ttl:
  assumes "reaches_retrieval c key options"
  shows "(fst (retrieve w) = Inr JNull \<and> opt_field saveNullResponse options \<noteq> Some False \<longrightarrow>
            last (issued (client_after (getValueOrRetrieve c key retrieve options w))) =
              Set (computeCacheKey (getValueOrRetrieveKeyPrefix c) key) NULL_SYMBOL []
          \<and> (\<not> rejects (client c) (Set (computeCacheKey (getValueOrRetrieveKeyPrefix c) key) NULL_SYMBOL []) \<longrightarrow>
                result_of (getValueOrRetrieve c key retrieve options w) = Inr JNull
              \<and> slots (client_after (getValueOrRetrieve c key retrieve options w))
                   (computeCacheKey (getValueOrRetrieveKeyPrefix c) key) = Some (NULL_SYMBOL, None)))
    \<and> (fst (retrieve w) = Inr v \<and> v \<noteq> JNull \<longrightarrow>
            last (issued (client_after (getValueOrRetrieve c key retrieve options w))) =
              Set (computeCacheKey (getValueOrRetrieveKeyPrefix c) key) (JSON_stringify v)
                [ArgS ''EX'', ArgN (expirationTime (getValueOrRetrieveCacheDurationInMs c) options)]
          \<and> (\<not> rejects (client c) (Set (computeCacheKey (getValueOrRetrieveKeyPrefix c) key) (JSON_stringify v)
                  [ArgS ''EX'', ArgN (expirationTime (getValueOrRetrieveCacheDurationInMs c) options)]) \<longrightarrow>
                result_of (getValueOrRetrieve c key retrieve options w) = Inr v
              \<and> slots (client_after (getValueOrRetrieve c key retrieve options w))
                   (computeCacheKey (getValueOrRetrieveKeyPrefix c) key) =
                 Some (JSON_stringify v, Some (expirationTime (getValueOrRetrieveCacheDurationInMs c) options))))"
proof -
  note null = marker_written [OF assms, of retrieve w]
  note val = value_written [OF assms, of retrieve w v]
  show ?thesis using null val by blast
qed

text \<open>
  The theorem on the empty store with the default options: a retrieval of \<^verbatim>\<open>null\<close>, and a
  retrieval of the number 20 (written as \<^verbatim>\<open>20\<close> with 300 seconds to live).
\<close>

theorem null_result_written_without_ttl_witness:
  "reaches_retrieval demo_client (KeyString ''k'') None
   \<and> fst (retrieve_returning JNull ()) = Inr JNull
   \<and> opt_field saveNullResponse None \<noteq> Some False
   \<and> \<not> rejects (client demo_client) (Set ''k'' NULL_SYMBOL [])
   \<and> result_of (getValueOrRetrieve demo_client (KeyString ''k'') (retrieve_returning JNull) None ())
       = Inr JNull
   \<and> last (issued (client_after
        (getValueOrRetrieve demo_client (KeyString ''k'') (retrieve_returning JNull) None ())))
       = Set ''k'' ''%__NULL__%'' []
   \<and> slots (client_after
        (getValueOrRetrieve demo_client (KeyString ''k'') (retrieve_returning JNull) None ())) ''k''
       = Some (''%__NULL__%'', None)
   \<and> fst (retrieve_returning (JNum (Fin 20)) ()) = Inr (JNum (Fin 20)) \<and> JNum (Fin 20) \<noteq> JNull
   \<and> \<not> rejects (client demo_client) (Set ''k'' ''20'' [ArgS ''EX'', ArgN (Fin 300)])
   \<and> result_of (getValueOrRetrieve demo_client (KeyString ''k'') (retrieve_returning (JNum (Fin 20))) None ())
       = Inr (JNum (Fin 20))
   \<and> last (issued (client_after
        (getValueOrRetrieve demo_client (KeyString ''k'') (retrieve_returning (JNum (Fin 20))) None ())))
       = Set ''k'' ''20'' [ArgS ''EX'', ArgN (Fin 300)]
   \<and> slots (client_after
        (getValueOrRetrieve demo_client (KeyString ''k'') (retrieve_returning (JNum (Fin 20))) None ())) ''k''
       = Some (''20'', Some (Fin 300))"
proof -
  have r: "reaches_retrieval demo_client (KeyString ''k'') None"
    by (simp add: reaches_retrieval_def redis_get_def cache_hit_def truthy_string_def
        demo_client_fields opt_field_def)
  have s: "show_number 20 = ''20''"
    by code_simp
  have o: "opt_field saveNullResponse None \<noteq> Some False"
    by (simp add: opt_field_def)
  note n = null_result_written_without_ttl [OF r, where retrieve = "retrieve_returning JNull"
      and w = "()" and v = JNull]
  note v = null_result_written_without_ttl [OF r, where retrieve = "retrieve_returning (JNum (Fin 20))"
      and w = "()" and v = "JNum (Fin 20)"]
  show ?thesis
    using r o n v
    by (simp add: retrieve_returning_def demo_client_fields s expirationTime_default NULL_SYMBOL_def)
qed

subsection \<open>Transactions\<close>

text \<open>
  Claim C9 says that the secondary connection is closed when \<^verbatim>\<open>transaction\<close>
  completes. \<^verbatim>\<open>transaction\<close> never calls \<^verbatim>\<open>close\<close>: after a callback that succeeds the
  secondary client has issued \<^verbatim>\<open>MULTI\<close> and \<^verbatim>\<open>EXEC\<close> and is still connected, and after
  a callback that raises it has issued \<^verbatim>\<open>MULTI\<close> and \<^verbatim>\<open>DISCARD\<close>, the error is raised
  again, and it is still connected (\<open>transaction_never_closes\<close> is the general case).
\<close>

theorem transaction_leaves_connection_open:
  "fst (transaction None demo_client tx_nothing) = Inr ()
   \<and> map_option (\<lambda>t. connected (client t)) (snd (transaction None demo_client tx_nothing)) = Some True
   \<and> map_option (\<lambda>t. issued (client t)) (snd (transaction None demo_client tx_nothing))
       = Some [Connect, Send ''MULTI'' [], Send ''EXEC'' []]
   \<and> fst (transaction None demo_client (tx_raising ''failed'')) = Inl (Thrown ''failed'')
   \<and> map_option (\<lambda>t. connected (client t)) (snd (transaction None demo_client (tx_raising ''failed'')))
       = Some True
   \<and> map_option (\<lambda>t. issued (client t)) (snd (transaction None demo_client (tx_raising ''failed'')))
       = Some [Connect, Send ''MULTI'' [], Send ''DISCARD'' []]"
  by (simp add: transaction_def create_def new_CacheClient_def new_RedisClient_def
      redis_connect_def redis_send_def issue_def truthy_string_def demo_client_def
      tx_nothing_def tx_raising_def Let_def)

subsection \<open>The empty string in a slot\<close>

text \<open>
  Claim C10, as amended. The slot of the computed key holds the empty string and the
  call does not bypass the cache. The call takes the path of a miss: the retrieval
  function is invoked once, and the result and the caller's state are those of the same
  call on a store where the key is absent. The result is written as on any miss: a
  value other than \<^verbatim>\<open>null\<close> overwrites the slot with its JSON text and the time to live,
  \<^verbatim>\<open>null\<close> overwrites it with the null marker unless \<^verbatim>\<open>saveNullResponse\<close> is
  \<^verbatim>\<open>false\<close>, and then the empty string stays in the slot.
\<close>

theorem empty_string_is_a_miss:
  assumes "opt_field bypassCache options \<noteq> Some True"
    and "\<not> rejects (client c) (Get (computeCacheKey (getValueOrRetrieveKeyPrefix c) key))"
    and "slots (client c) (computeCacheKey (getValueOrRetrieveKeyPrefix c) key) = Some ([], ttl)"
  shows "world_after (getValueOrRetrieve c key (counted retrieve) options (n, w))
           = (Suc n, snd (retrieve w))
    \<and> result_of (getValueOrRetrieve c key retrieve options w)
        = result_of (getValueOrRetrieve
            (without_slot c (computeCacheKey (getValueOrRetrieveKeyPrefix c) key)) key retrieve options w)
    \<and> world_after (getValueOrRetrieve c key retrieve options w)
        = world_after (getValueOrRetrieve
            (without_slot c (computeCacheKey (getValueOrRetrieveKeyPrefix c) key)) key retrieve options w)
    \<and> (fst (retrieve w) = Inr v \<and> v \<noteq> JNull
        \<and> \<not> rejects (client c) (Set (computeCacheKey (getValueOrRetrieveKeyPrefix c) key) (JSON_stringify v)
              [ArgS ''EX'', ArgN (expirationTime (getValueOrRetrieveCacheDurationInMs c) options)]) \<longrightarrow>
          slots (client_after (getValueOrRetrieve c key retrieve options w))
            (computeCacheKey (getValueOrRetrieveKeyPrefix c) key)
          = Some (JSON_stringify v, Some (expirationTime (getValueOrRetrieveCacheDurationInMs c) options)))
    \<and> (fst (retrieve w) = Inr JNull \<and> opt_field saveNullResponse options \<noteq> Some False
        \<and> \<not> rejects (client c) (Set (computeCacheKey (getValueOrRetrieveKeyPrefix c) key) NULL_SYMBOL []) \<longrightarrow>
          slots (client_after (getValueOrRetrieve c key retrieve options w))
            (computeCacheKey (getValueOrRetrieveKeyPrefix c) key)
          = Some (NULL_SYMBOL, None))
    \<and> (fst (retrieve w) = Inr JNull \<and> opt_field saveNullResponse options = Some False \<longrightarrow>
          slots (client_after (getValueOrRetrieve c key retrieve options w))
            (computeCacheKey (getValueOrRetrieveKeyPrefix c) key)
          = Some ([], ttl))"
proof -
  let ?k = "computeCacheKey (getValueOrRetrieveKeyPrefix c) key"
  let ?t = "expirationTime (getValueOrRetrieveCacheDurationInMs c) options"
  let ?a = "without_slot c ?k"
  have miss: "\<not> cache_hit (map_option fst (slots (client c) ?k)) options"
    using assms(3) by (simp add: empty_not_hit)
  have reach: "reaches_retrieval c key options"
    using assms by (simp add: reaches_retrieval_def redis_get_ok empty_not_hit)
  note here = getValueOrRetrieve_miss [OF assms(1,2) miss]
  have ak: "computeCacheKey (getValueOrRetrieveKeyPrefix ?a) key = ?k"
    and ar: "rejects (client ?a) = rejects (client c)"
    and ad: "getValueOrRetrieveCacheDurationInMs ?a = getValueOrRetrieveCacheDurationInMs c"
    by (simp_all add: without_slot_def)
  have amiss: "\<not> cache_hit (map_option fst (slots (client ?a) (computeCacheKey (getValueOrRetrieveKeyPrefix ?a) key))) options"
    by (simp add: without_slot_def absent_not_hit)
  have ag: "\<not> rejects (client ?a) (Get (computeCacheKey (getValueOrRetrieveKeyPrefix ?a) key))"
    using assms(2) by (simp add: ak ar)
  note there = getValueOrRetrieve_miss [OF assms(1) ag amiss]
  have invoked: "world_after (getValueOrRetrieve c key (counted retrieve) options (n, w))
           = (Suc n, snd (retrieve w))"
    using reaches_retrieval_invoked [OF reach, of "counted retrieve" "(n, w)"] by simp
  have same_result: "result_of (getValueOrRetrieve c key retrieve options w)
        = result_of (getValueOrRetrieve ?a key retrieve options w)"
    unfolding result_of_def here there ak ad
    by (rule retrieve_and_store_result) (simp add: ar)
  have same_world: "world_after (getValueOrRetrieve c key retrieve options w)
        = world_after (getValueOrRetrieve ?a key retrieve options w)"
    unfolding world_after_def here there
    by (simp add: retrieve_and_store_world)
  have val: "slots (client_after (getValueOrRetrieve c key retrieve options w)) ?k
          = Some (JSON_stringify v, Some ?t)"
    if "fst (retrieve w) = Inr v" "v \<noteq> JNull"
      "\<not> rejects (client c) (Set ?k (JSON_stringify v) [ArgS ''EX'', ArgN ?t])"
    using value_written [OF reach, of retrieve w v] that by blast
  have null: "slots (client_after (getValueOrRetrieve c key retrieve options w)) ?k
          = Some (NULL_SYMBOL, None)"
    if "fst (retrieve w) = Inr JNull" "opt_field saveNullResponse options \<noteq> Some False"
      "\<not> rejects (client c) (Set ?k NULL_SYMBOL [])"
    using marker_written [OF reach, of retrieve w] that by blast
  have stay: "slots (client_after (getValueOrRetrieve c key retrieve options w)) ?k = Some ([], ttl)"
    if "fst (retrieve w) = Inr JNull" "opt_field saveNullResponse options = Some False"
    using null_dropped_call [where retrieve = retrieve and w = w, OF reach that] assms(3)
    by (auto simp: client_after_def)
  show ?thesis
    using invoked same_result same_world val null stay by blast
qed

text \<open>
  The theorem on a store that holds the empty string: a retrieval of the number 20, and
  a retrieval of \<^verbatim>\<open>null\<close> with and without \<^verbatim>\<open>saveNullResponse\<close>.
\<close>

theorem empty_string_is_a_miss_witness:
  "opt_field bypassCache None \<noteq> Some True
   \<and> opt_field bypassCache (Some (options_with_saveNullResponse False)) \<noteq> Some True
   \<and> \<not> rejects (client (demo_client_with ''k'' [])) (Get ''k'')
   \<and> slots (client (demo_client_with ''k'' [])) ''k'' = Some ([], None)
   \<and> world_after (getValueOrRetrieve (demo_client_with ''k'' []) (KeyString ''k'')
        (counted (retrieve_returning (JNum (Fin 20)))) None (0, ())) = (1, ())
   \<and> fst (retrieve_returning (JNum (Fin 20)) ()) = Inr (JNum (Fin 20)) \<and> JNum (Fin 20) \<noteq> JNull
   \<and> \<not> rejects (client (demo_client_with ''k'' [])) (Set ''k'' ''20'' [ArgS ''EX'', ArgN (Fin 300)])
   \<and> slots (client_after (getValueOrRetrieve (demo_client_with ''k'' []) (KeyString ''k'')
        (retrieve_returning (JNum (Fin 20))) None ())) ''k'' = Some (''20'', Some (Fin 300))
   \<and> fst (retrieve_returning JNull ()) = Inr JNull
   \<and> opt_field saveNullResponse None \<noteq> Some False
   \<and> \<not> rejects (client (demo_client_with ''k'' [])) (Set ''k'' NULL_SYMBOL [])
   \<and> slots (client_after (getValueOrRetrieve (demo_client_with ''k'' []) (KeyString ''k'')
        (retrieve_returning JNull) None ())) ''k'' = Some (NULL_SYMBOL, None)
   \<and> opt_field saveNullResponse (Some (options_with_saveNullResponse False)) = Some False
   \<and> slots (client_after (getValueOrRetrieve (demo_client_with ''k'' []) (KeyString ''k'')
        (retrieve_returning JNull) (Some (options_with_saveNullResponse False)) ())) ''k''
       = Some ([], None)"
proof -
  let ?c = "demo_client_with ''k'' []"
  let ?off = "Some (options_with_saveNullResponse False)"
  have b: "opt_field bypassCache None \<noteq> Some True" "opt_field bypassCache ?off \<noteq> Some True"
    by (simp_all add: opt_field_def options_with_saveNullResponse_def)
  have g: "\<not> rejects (client ?c) (Get (computeCacheKey (getValueOrRetrieveKeyPrefix ?c) (KeyString ''k'')))"
    by (simp add: demo_client_with_fields)
  have s: "slots (client ?c) (computeCacheKey (getValueOrRetrieveKeyPrefix ?c) (KeyString ''k''))
      = Some ([], None)"
    by (simp add: demo_client_with_fields)
  have snr: "opt_field saveNullResponse None \<noteq> Some False"
    "opt_field saveNullResponse ?off = Some False"
    by (simp_all add: opt_field_def options_with_saveNullResponse_def)
  have e: "show_number 20 = ''20''"
    by code_simp
  note val = empty_string_is_a_miss [OF b(1) g s, where retrieve = "retrieve_returning (JNum (Fin 20))"
      and n = 0 and w = "()" and v = "JNum (Fin 20)"]
  note null = empty_string_is_a_miss [OF b(1) g s, where retrieve = "retrieve_returning JNull"
      and n = 0 and w = "()" and v = JNull]
  note stay = empty_string_is_a_miss [OF b(2) g s, where retrieve = "retrieve_returning JNull"
      and n = 0 and w = "()" and v = JNull]
  have v': "world_after (getValueOrRetrieve ?c (KeyString ''k'')
        (counted (retrieve_returning (JNum (Fin 20)))) None (0, ())) = (1, ())"
    "slots (client_after (getValueOrRetrieve ?c (KeyString ''k'')
        (retrieve_returning (JNum (Fin 20))) None ())) ''k'' = Some (''20'', Some (Fin 300))"
    using val by (simp_all add: retrieve_returning_def demo_client_with_fields e expirationTime_default)
  have n': "slots (client_after (getValueOrRetrieve ?c (KeyString ''k'')
        (retrieve_returning JNull) None ())) ''k'' = Some (NULL_SYMBOL, None)"
    using null snr(1) by (simp add: retrieve_returning_def demo_client_with_fields)
  have s': "slots (client_after (getValueOrRetrieve ?c (KeyString ''k'')
        (retrieve_returning JNull) ?off ())) ''k'' = Some ([], None)"
    using stay snr(2) by (simp add: retrieve_returning_def demo_client_with_fields)
  show ?thesis
    using b snr v' n' s'
    by (simp add: retrieve_returning_def demo_client_with_fields)
qed

text \<open>
  Claim C10 as stated says that the result of the retrieval overwrites the slot. With
  \<^verbatim>\<open>saveNullResponse\<close> \<^verbatim>\<open>false\<close> and a retrieval of \<^verbatim>\<open>null\<close>, the retrieval function is
  invoked, \<^verbatim>\<open>null\<close> is returned, and the slot still holds the empty string.
\<close>

theorem empty_string_not_overwritten_counterexample:
  "slots (client (demo_client_with ''k'' [])) ''k'' = Some ([], None)
   \<and> world_after (getValueOrRetrieve (demo_client_with ''k'' []) (KeyString ''k'')
        (counted (retrieve_returning JNull)) (Some (options_with_saveNullResponse False)) (0, ()))
       = (1, ())
   \<and> result_of (getValueOrRetrieve (demo_client_with ''k'' []) (KeyString ''k'')
        (counted (retrieve_returning JNull)) (Some (options_with_saveNullResponse False)) (0, ()))
       = Inr JNull
   \<and> slots (client_after (getValueOrRetrieve (demo_client_with ''k'' []) (KeyString ''k'')
        (counted (retrieve_returning JNull)) (Some (options_with_saveNullResponse False)) (0, ())))
        ''k'' = Some ([], None)"
  by (simp add: getValueOrRetrieve_def retrieve_and_store_def redis_get_def cache_hit_def
      truthy_string_def opt_field_def options_with_saveNullResponse_def counted_def
      retrieve_returning_def demo_client_with_fields outcome_defs Let_def)

end
